theory Spec2Isabelle
  imports Main
begin

section \<open>The data of \<open>grassfire_algorithm\<close>\<close>

text \<open>
  A cell is a Python tuple \<open>(row, col)\<close> of unbounded integers.  The field is a numpy
  array of floats of shape \<open>(num_rows, num_cols)\<close>; the program only ever stores in it
  \<open>np.inf\<close>, \<open>np.nan\<close>, \<open>0\<close> and values obtained from \<open>0\<close> by adding \<open>1\<close>, so a
  float is modelled by the three cases below.  (Adding \<open>1\<close> to an integral float is exact
  below \<open>2^53\<close>, which no array that fits in memory reaches.)  The array itself is a
  function from cells to values, read and written only at indices of the shape; the
  shape is carried by the parameters \<open>R\<close> (\<open>num_rows\<close>) and \<open>C\<close> (\<open>num_cols\<close>).
\<close>

datatype fval = Fin int | PInf | NaN

datatype error = IndexError | ValueError

type_synonym cell = "int \<times> int"

type_synonym field = "cell \<Rightarrow> fval"

text \<open>IEEE comparisons, as numpy evaluates them: each one is false when an operand is NaN.\<close>

fun flt :: "fval \<Rightarrow> fval \<Rightarrow> bool" where
  "flt (Fin a) (Fin b) = (a < b)"
| "flt (Fin a) PInf = True"
| "flt PInf _ = False"
| "flt NaN _ = False"
| "flt _ NaN = False"

fun feq :: "fval \<Rightarrow> fval \<Rightarrow> bool" where
  "feq (Fin a) (Fin b) = (a = b)"
| "feq PInf PInf = True"
| "feq NaN _ = False"
| "feq _ NaN = False"
| "feq (Fin a) PInf = False"
| "feq PInf (Fin b) = False"

fun fge :: "fval \<Rightarrow> fval \<Rightarrow> bool" where
  "fge (Fin a) (Fin b) = (b \<le> a)"
| "fge PInf (Fin b) = True"
| "fge PInf PInf = True"
| "fge (Fin a) PInf = False"
| "fge NaN _ = False"
| "fge _ NaN = False"

text \<open>\<open>np.isinf\<close> (the program has no negative infinity) and \<open>x + 1\<close>.\<close>

fun isinf :: "fval \<Rightarrow> bool" where
  "isinf PInf = True"
| "isinf (Fin a) = False"
| "isinf NaN = False"

fun fadd1 :: "fval \<Rightarrow> fval" where
  "fadd1 (Fin a) = Fin (a + 1)"
| "fadd1 PInf = PInf"
| "fadd1 NaN = NaN"

text \<open>
  numpy indexing with a tuple of integers: an index \<open>i\<close> on an axis of length \<open>n\<close> is
  accepted when \<open>-n \<le> i < n\<close>, a negative one counting from the end; anything else
  raises \<open>IndexError\<close>.
\<close>

definition valid_index :: "int \<Rightarrow> int \<Rightarrow> cell \<Rightarrow> bool" where
  "valid_index R C p = (- R \<le> fst p \<and> fst p < R \<and> - C \<le> snd p \<and> snd p < C)"

definition wrap :: "int \<Rightarrow> int \<Rightarrow> cell \<Rightarrow> cell" where
  "wrap R C p = (if fst p < 0 then fst p + R else fst p, if snd p < 0 then snd p + C else snd p)"

definition aget :: "int \<Rightarrow> int \<Rightarrow> field \<Rightarrow> cell \<Rightarrow> fval" where
  "aget R C f p = f (wrap R C p)"

text \<open>The bounds test of lines 64 and 77: \<open>0 <= row < num_rows and 0 <= col < num_cols\<close>.\<close>

definition in_bounds :: "int \<Rightarrow> int \<Rightarrow> cell \<Rightarrow> bool" where
  "in_bounds R C p = (0 \<le> fst p \<and> fst p < R \<and> 0 \<le> snd p \<and> snd p < C)"

definition directions :: "cell list" where
  "directions = [(-1, 0), (1, 0), (0, -1), (0, 1)]"

section \<open>The distance field (lines 54 to 67)\<close>

text \<open>
  \<open>for obstacle in obstacles: field[obstacle] = np.nan\<close>.  The obstacles are given as the
  list in which the set is iterated.
\<close>

fun mark_obstacles :: "int \<Rightarrow> int \<Rightarrow> cell list \<Rightarrow> field \<Rightarrow> error + field" where
  "mark_obstacles R C [] f = Inr f"
| "mark_obstacles R C (ob # obs) f =
     (if valid_index R C ob then mark_obstacles R C obs (f(wrap R C ob := NaN))
      else Inl IndexError)"

text \<open>
  Lines 54 to 57.  \<open>np.full\<close> raises \<open>ValueError\<close> on a negative dimension; the
  assignment to \<open>field[destination_point]\<close> raises \<open>IndexError\<close> on a bad index.
\<close>

definition init_field :: "int \<Rightarrow> int \<Rightarrow> cell list \<Rightarrow> cell \<Rightarrow> error + field" where
  "init_field R C obstacles destination_point =
     (if R < 0 \<or> C < 0 then Inl ValueError
      else case mark_obstacles R C obstacles (\<lambda>_. PInf) of
             Inl e \<Rightarrow> Inl e
           | Inr f \<Rightarrow>
               if valid_index R C destination_point
               then Inr (f(wrap R C destination_point := Fin 0))
               else Inl IndexError)"

text \<open>
  The body of the inner \<open>for\<close> loop (lines 63 to 67) for one direction; the state is the
  field and the queue.
\<close>

fun visit :: "int \<Rightarrow> int \<Rightarrow> cell \<Rightarrow> field \<times> cell list \<Rightarrow> cell \<Rightarrow> field \<times> cell list" where
  "visit R C (row, col) (f, queue) (d_row, d_col) =
     (let new_row = row + d_row; new_col = col + d_col in
      if in_bounds R C (new_row, new_col) then
        if isinf (f (new_row, new_col))
        then (f((new_row, new_col) := fadd1 (aget R C f (row, col))),
              queue @ [(new_row, new_col)])
        else (f, queue)
      else (f, queue))"

definition expand :: "int \<Rightarrow> int \<Rightarrow> cell \<Rightarrow> field \<times> cell list \<Rightarrow> field \<times> cell list" where
  "expand R C cur st = foldl (visit R C cur) st directions"

text \<open>
  The \<open>while queue:\<close> loop; \<open>queue.pop(0)\<close> takes the head of a non-empty queue and
  leaves its tail.  On a field in which a queued cell holds \<open>inf\<close> the loop
  never ends (\<open>inf + 1\<close> is \<open>inf\<close>, so the neighbours stay unreached and are queued
  again and again); not returning is the value \<open>None\<close>.
\<close>

partial_function (option) bfs :: "int \<Rightarrow> int \<Rightarrow> field \<Rightarrow> cell list \<Rightarrow> field option" where
  "bfs R C f queue =
     (if queue = [] then Some f
      else
        (let st = expand R C (hd queue) (f, tl queue)
         in bfs R C (fst st) (snd st)))"

declare bfs.simps [code]

text \<open>
  The same loop, with the history of the queue: \<open>enq\<close> lists every cell that was ever put
  into the queue, in that order.
\<close>

partial_function (option) bfs_log ::
    "int \<Rightarrow> int \<Rightarrow> field \<Rightarrow> cell list \<Rightarrow> cell list \<Rightarrow> (field \<times> cell list) option" where
  "bfs_log R C f queue enq =
     (if queue = [] then Some (f, enq)
      else
        (let st = expand R C (hd queue) (f, tl queue)
         in bfs_log R C (fst st) (snd st) (enq @ drop (length (tl queue)) (snd st))))"

declare bfs_log.simps [code]

definition distance_field :: "int \<Rightarrow> int \<Rightarrow> cell list \<Rightarrow> cell \<Rightarrow> (error + field) option" where
  "distance_field R C obstacles destination_point =
     (case init_field R C obstacles destination_point of
        Inl e \<Rightarrow> Some (Inl e)
      | Inr f \<Rightarrow> map_option Inr (bfs R C f [destination_point]))"

section \<open>The path (lines 69 to 83)\<close>

text \<open>
  The key of line 78 is the tuple \<open>(field[pos], -pos[0], -pos[1])\<close>.  Python compares two
  tuples at the first position where they are not \<open>==\<close>, with \<open><\<close>.
\<close>

definition key_lt :: "field \<Rightarrow> cell \<Rightarrow> cell \<Rightarrow> bool" where
  "key_lt f p q =
     (if \<not> feq (f p) (f q) then flt (f p) (f q)
      else if - fst p \<noteq> - fst q then - fst p < - fst q
      else - snd p < - snd q)"

text \<open>
  \<open>min(xs, key=...)\<close> keeps the first element and replaces it by a later one only when
  the later key is \<open><\<close> the kept one; on an empty list it raises \<open>ValueError\<close>.
\<close>

fun min_from :: "field \<Rightarrow> cell \<Rightarrow> cell list \<Rightarrow> cell" where
  "min_from f best [] = best"
| "min_from f best (p # ps) = min_from f (if key_lt f p best then p else best) ps"

fun py_min :: "field \<Rightarrow> cell list \<Rightarrow> cell option" where
  "py_min f [] = None"
| "py_min f (p # ps) = Some (min_from f p ps)"

text \<open>The list comprehension of lines 76 and 77.\<close>

definition candidates :: "int \<Rightarrow> int \<Rightarrow> cell \<Rightarrow> cell list" where
  "candidates R C current_pos =
     filter (in_bounds R C)
       (map (\<lambda>d. (fst current_pos + fst d, snd current_pos + snd d)) directions)"

definition choose_next :: "int \<Rightarrow> int \<Rightarrow> field \<Rightarrow> cell \<Rightarrow> cell option" where
  "choose_next R C f current_pos = py_min f (candidates R C current_pos)"

text \<open>
  The \<open>while current_pos != destination_point\<close> loop with what follows it: when the loop
  ends, the destination is appended and the reversed list is returned (lines 82, 83);
  line 81 returns the empty list from inside the loop.  The loop may run forever, which
  is the value \<open>None\<close>.
\<close>

partial_function (option) walk ::
    "int \<Rightarrow> int \<Rightarrow> field \<Rightarrow> cell \<Rightarrow> cell \<Rightarrow> cell list \<Rightarrow> (error + cell list) option" where
  "walk R C f destination_point current_pos path =
     (if current_pos = destination_point then Some (Inr (rev (path @ [destination_point])))
      else
        (case choose_next R C f current_pos of
           None \<Rightarrow> Some (Inl ValueError)
         | Some next_pos \<Rightarrow>
             if fge (f next_pos) (aget R C f current_pos) then Some (Inr [])
             else walk R C f destination_point next_pos (path @ [current_pos])))"

declare walk.simps [code]

definition reconstruct :: "int \<Rightarrow> int \<Rightarrow> field \<Rightarrow> cell \<Rightarrow> cell \<Rightarrow> (error + cell list) option" where
  "reconstruct R C f start_point destination_point =
     (if \<not> valid_index R C start_point then Some (Inl IndexError)
      else if \<not> isinf (aget R C f start_point)
      then walk R C f destination_point start_point []
      else Some (Inr (rev [])))"

definition grassfire_algorithm ::
    "cell list \<Rightarrow> cell \<Rightarrow> cell \<Rightarrow> int \<Rightarrow> int \<Rightarrow> (error + cell list \<times> field) option" where
  "grassfire_algorithm obstacles start_point destination_point num_rows num_cols =
     (case distance_field num_rows num_cols obstacles destination_point of
        None \<Rightarrow> None
      | Some (Inl e) \<Rightarrow> Some (Inl e)
      | Some (Inr field) \<Rightarrow>
          (case reconstruct num_rows num_cols field start_point destination_point of
             None \<Rightarrow> None
           | Some (Inl e) \<Rightarrow> Some (Inl e)
           | Some (Inr path) \<Rightarrow> Some (Inr (path, field))))"

section \<open>Notions of the specification\<close>

text \<open>
  Orthogonal neighbours are the cells at Manhattan distance 1; \<open>neighbours\<close> lists them
  in the order of the directions of the program.
\<close>

definition adjacent :: "cell \<Rightarrow> cell \<Rightarrow> bool" where
  "adjacent p q = (\<bar>fst p - fst q\<bar> + \<bar>snd p - snd q\<bar> = 1)"

definition neighbours :: "cell \<Rightarrow> cell list" where
  "neighbours p = [(fst p - 1, snd p), (fst p + 1, snd p), (fst p, snd p - 1), (fst p, snd p + 1)]"

text \<open>
  \<open>reach R C obs dest n c\<close>: there is a walk of \<open>n\<close> orthogonal steps from the destination
  to \<open>c\<close> whose cells after the destination are all inside the grid and outside the
  obstacle set.  The destination itself is passable whether or not it is listed as an
  obstacle, as in the program, which overwrites its mark with 0.
\<close>

inductive reach :: "int \<Rightarrow> int \<Rightarrow> cell list \<Rightarrow> cell \<Rightarrow> nat \<Rightarrow> cell \<Rightarrow> bool"
  for R C obs dest where
  reach_dest: "reach R C obs dest 0 dest"
| reach_step: "reach R C obs dest n p \<Longrightarrow> adjacent p q \<Longrightarrow> in_bounds R C q \<Longrightarrow> q \<notin> set obs
               \<Longrightarrow> reach R C obs dest (Suc n) q"

text \<open>What a run returned, read off the result: a value of the field, and the path.\<close>

definition value_at :: "(error + field) option \<Rightarrow> cell \<Rightarrow> fval option" where
  "value_at r c = (case r of Some (Inr f) \<Rightarrow> Some (f c) | _ \<Rightarrow> None)"

definition returned_path :: "(error + cell list \<times> field) option \<Rightarrow> cell list option" where
  "returned_path r = (case r of Some (Inr (p, f)) \<Rightarrow> Some p | _ \<Rightarrow> None)"

text \<open>The cell that line 75 chooses at \<open>cur\<close> on a computed field.\<close>

definition next_at :: "int \<Rightarrow> int \<Rightarrow> (error + field) option \<Rightarrow> cell \<Rightarrow> cell option" where
  "next_at R C r cur = (case r of Some (Inr f) \<Rightarrow> choose_next R C f cur | _ \<Rightarrow> None)"

section \<open>The invariant of the expansion\<close>

text \<open>
  \<open>val\<close> reads a finite value; \<open>frontier\<close> lists the unreached neighbours of a cell inside
  the grid, in the order of the directions, and \<open>relabel\<close> gives them the distance
  \<open>k + 1\<close>: one iteration of the \<open>while\<close> loop does exactly that (lemma
  \<open>expand_frontier\<close>).  \<open>infcount\<close> counts the unreached cells of the grid.
\<close>

definition val :: "field \<Rightarrow> cell \<Rightarrow> int" where
  "val f c = (case f c of Fin d \<Rightarrow> d | _ \<Rightarrow> 0)"

definition frontier :: "int \<Rightarrow> int \<Rightarrow> field \<Rightarrow> cell \<Rightarrow> cell list" where
  "frontier R C f cur = filter (\<lambda>x. in_bounds R C x \<and> f x = PInf) (neighbours cur)"

definition relabel :: "field \<Rightarrow> cell list \<Rightarrow> int \<Rightarrow> field" where
  "relabel f N k = (\<lambda>x. if x \<in> set N then Fin (k + 1) else f x)"

definition infcount :: "int \<Rightarrow> int \<Rightarrow> field \<Rightarrow> nat" where
  "infcount R C f = card {c. in_bounds R C c \<and> f c = PInf}"

text \<open>
  The invariant of the \<open>while\<close> loop, for the field \<open>f\<close> and the queue \<open>q\<close>: the
  destination holds 0; exactly the obstacles other than the destination hold NaN; a
  finite value is the length of a walk from the destination, and each finite cell but
  the destination has a neighbour one step closer; the queue holds finite cells in
  ascending order of their values, none more than one below the largest value of the
  field; and every passable neighbour of a finite cell that has left the queue is finite
  and at most one step further.
\<close>

definition bfs_inv :: "int \<Rightarrow> int \<Rightarrow> cell list \<Rightarrow> cell \<Rightarrow> field \<Rightarrow> cell list \<Rightarrow> bool" where
  "bfs_inv R C obs dest f q \<longleftrightarrow>
     in_bounds R C dest \<and> f dest = Fin 0
   \<and> (\<forall>c\<in>set obs. c \<noteq> dest \<longrightarrow> f c = NaN)
   \<and> (\<forall>c. f c = NaN \<longrightarrow> c \<in> set obs)
   \<and> (\<forall>c d. f c = Fin d \<longrightarrow> in_bounds R C c \<and> 0 \<le> d \<and> reach R C obs dest (nat d) c)
   \<and> (\<forall>c d. f c = Fin d \<longrightarrow> c \<noteq> dest \<longrightarrow>
          (\<exists>n. adjacent c n \<and> in_bounds R C n \<and> f n = Fin (d - 1)))
   \<and> (\<forall>c\<in>set q. \<exists>d. f c = Fin d)
   \<and> sorted (map (val f) q)
   \<and> (q \<noteq> [] \<longrightarrow> (\<forall>c d. f c = Fin d \<longrightarrow> d \<le> val f (hd q) + 1))
   \<and> (\<forall>c d n. f c = Fin d \<longrightarrow> c \<notin> set q \<longrightarrow> adjacent c n \<longrightarrow> in_bounds R C n \<longrightarrow> n \<notin> set obs
          \<longrightarrow> (\<exists>v. f n = Fin v \<and> v \<le> d + 1))"

section \<open>Indices and neighbours\<close>

lemma wrap_in_bounds: "in_bounds R C p \<Longrightarrow> wrap R C p = p"
  by (simp add: in_bounds_def wrap_def)

lemma in_bounds_valid: "in_bounds R C p \<Longrightarrow> valid_index R C p"
  by (auto simp: in_bounds_def valid_index_def)

lemma aget_in_bounds: "in_bounds R C p \<Longrightarrow> aget R C f p = f p"
  by (simp add: aget_def wrap_in_bounds)

lemma adjacent_neighbours: "adjacent p q \<longleftrightarrow> q \<in> set (neighbours p)"
  by (cases p; cases q) (auto simp: adjacent_def neighbours_def)

lemma adjacent_sym: "adjacent p q \<Longrightarrow> adjacent q p"
  by (auto simp: adjacent_def)

lemma not_self_neighbour: "p \<notin> set (neighbours p)"
  by (cases p) (auto simp: neighbours_def)

lemma distinct_neighbours: "distinct (neighbours p)"
  by (cases p) (auto simp: neighbours_def)

lemma candidates_neighbours: "candidates R C p = filter (in_bounds R C) (neighbours p)"
  by (simp add: candidates_def neighbours_def directions_def)

lemma mark_obstacles_in_bounds:
  "\<forall>ob\<in>set obs. in_bounds R C ob \<Longrightarrow>
   mark_obstacles R C obs f = Inr (\<lambda>c. if c \<in> set obs then NaN else f c)"
proof (induction obs arbitrary: f)
  case Nil
  then show ?case by simp
next
  case (Cons ob obs)
  then show ?case
    by (auto simp: in_bounds_valid wrap_in_bounds fun_eq_iff)
qed

lemma init_field_in_bounds:
  assumes "\<forall>ob\<in>set obs. in_bounds R C ob" and "in_bounds R C dest"
  shows "init_field R C obs dest =
           Inr (\<lambda>c. if c = dest then Fin 0 else if c \<in> set obs then NaN else PInf)"
proof -
  from assms(2) have "0 \<le> R" "0 \<le> C" by (auto simp: in_bounds_def)
  then show ?thesis
    using assms
    by (auto simp: init_field_def mark_obstacles_in_bounds in_bounds_valid wrap_in_bounds fun_eq_iff)
qed

section \<open>One iteration of the expansion\<close>

text \<open>
  The four visits around a cell of the grid touch four different cells, none of them the
  cell itself, so their effect can be written in one step: the unreached neighbours
  inside the grid get the value of the cell plus one and join the queue in the order of
  the directions.
\<close>

lemma isinf_iff: "isinf v \<longleftrightarrow> v = PInf"
  by (cases v) auto

lemma foldl_visit:
  assumes "in_bounds R C cur"
    and "distinct (map (\<lambda>d. (fst cur + fst d, snd cur + snd d)) ds)"
    and "cur \<notin> set (map (\<lambda>d. (fst cur + fst d, snd cur + snd d)) ds)"
  shows "foldl (visit R C cur) (f, q) ds =
           (\<lambda>x. if x \<in> set (map (\<lambda>d. (fst cur + fst d, snd cur + snd d)) ds)
                     \<and> in_bounds R C x \<and> f x = PInf
                then fadd1 (f cur) else f x,
            q @ filter (\<lambda>x. in_bounds R C x \<and> f x = PInf)
                  (map (\<lambda>d. (fst cur + fst d, snd cur + snd d)) ds))"
  using assms(2,3)
proof (induction ds arbitrary: f q)
  case Nil
  then show ?case by simp
next
  case (Cons d ds)
  obtain r c where cur: "cur = (r, c)" by (cases cur)
  obtain dr dc where d: "d = (dr, dc)" by (cases d)
  let ?n = "(r + dr, c + dc)"
  let ?ns = "map (\<lambda>d. (fst cur + fst d, snd cur + snd d)) ds"
  have n: "?n \<notin> set ?ns" "cur \<noteq> ?n" "distinct ?ns" "cur \<notin> set ?ns"
    using Cons.prems by (auto simp: cur d)
  have ag: "aget R C f (r, c) = f cur" using assms(1) by (simp add: aget_in_bounds cur)
  show ?case
  proof (cases "in_bounds R C ?n \<and> f ?n = PInf")
    case True
    then have st: "visit R C cur (f, q) d = (f(?n := fadd1 (f cur)), q @ [?n])"
      by (simp add: cur d isinf_iff ag Let_def)
    have "foldl (visit R C cur) (f, q) (d # ds)
            = foldl (visit R C cur) (f(?n := fadd1 (f cur)), q @ [?n]) ds"
      by (simp add: st)
    also have "\<dots> = (\<lambda>x. if x \<in> set ?ns \<and> in_bounds R C x \<and> (f(?n := fadd1 (f cur))) x = PInf
                          then fadd1 ((f(?n := fadd1 (f cur))) cur) else (f(?n := fadd1 (f cur))) x,
                     (q @ [?n]) @ filter (\<lambda>x. in_bounds R C x \<and> (f(?n := fadd1 (f cur))) x = PInf) ?ns)"
      using Cons.IH [OF n(3) n(4)] .
    also have "\<dots> = (\<lambda>x. if x \<in> set (map (\<lambda>d. (fst cur + fst d, snd cur + snd d)) (d # ds))
                                \<and> in_bounds R C x \<and> f x = PInf
                          then fadd1 (f cur) else f x,
                     q @ filter (\<lambda>x. in_bounds R C x \<and> f x = PInf)
                           (map (\<lambda>d. (fst cur + fst d, snd cur + snd d)) (d # ds)))"
    proof -
      define ns where "ns = ?ns"
      have m: "map (\<lambda>d. (fst cur + fst d, snd cur + snd d)) (d # ds) = ?n # ns"
        by (simp add: ns_def cur d)
      have n': "?n \<notin> set ns" using n(1) by (simp add: ns_def)
      have flt_eq: "filter (\<lambda>x. in_bounds R C x \<and> (f(?n := fadd1 (f cur))) x = PInf) ns
                  = filter (\<lambda>x. in_bounds R C x \<and> f x = PInf) ns"
        using n' by (intro filter_cong) auto
      show ?thesis
        unfolding m ns_def [symmetric] flt_eq
        using True n' n(2) by (auto simp: fun_eq_iff)
    qed
    finally show ?thesis .
  next
    case False
    then have st: "visit R C cur (f, q) d = (f, q)"
      by (auto simp: cur d isinf_iff Let_def)
    have "foldl (visit R C cur) (f, q) (d # ds) = foldl (visit R C cur) (f, q) ds"
      by (simp add: st)
    also have "\<dots> = (\<lambda>x. if x \<in> set ?ns \<and> in_bounds R C x \<and> f x = PInf
                          then fadd1 (f cur) else f x,
                     q @ filter (\<lambda>x. in_bounds R C x \<and> f x = PInf) ?ns)"
      using Cons.IH [OF n(3) n(4)] .
    also have "\<dots> = (\<lambda>x. if x \<in> set (map (\<lambda>d. (fst cur + fst d, snd cur + snd d)) (d # ds))
                                \<and> in_bounds R C x \<and> f x = PInf
                          then fadd1 (f cur) else f x,
                     q @ filter (\<lambda>x. in_bounds R C x \<and> f x = PInf)
                           (map (\<lambda>d. (fst cur + fst d, snd cur + snd d)) (d # ds)))"
    proof -
      define ns where "ns = ?ns"
      have m: "map (\<lambda>d. (fst cur + fst d, snd cur + snd d)) (d # ds) = ?n # ns"
        by (simp add: ns_def cur d)
      show ?thesis
        unfolding m ns_def [symmetric]
        using False by (auto simp: fun_eq_iff)
    qed
    finally show ?thesis .
  qed
qed

lemma expand_eq:
  assumes "in_bounds R C cur"
  shows "expand R C cur (f, q) =
           (\<lambda>x. if x \<in> set (neighbours cur) \<and> in_bounds R C x \<and> f x = PInf
                then fadd1 (f cur) else f x,
            q @ filter (\<lambda>x. in_bounds R C x \<and> f x = PInf) (neighbours cur))"
proof -
  have nb: "map (\<lambda>d. (fst cur + fst d, snd cur + snd d)) directions = neighbours cur"
    by (simp add: directions_def neighbours_def)
  show ?thesis
    unfolding expand_def
    using foldl_visit [OF assms, of directions f q] distinct_neighbours [of cur]
      not_self_neighbour [of cur]
    unfolding nb by blast
qed

lemma frontier_iff:
  "x \<in> set (frontier R C f cur) \<longleftrightarrow> adjacent cur x \<and> in_bounds R C x \<and> f x = PInf"
  by (auto simp: frontier_def adjacent_neighbours)

lemma distinct_frontier: "distinct (frontier R C f cur)"
  by (simp add: frontier_def distinct_neighbours)

lemma expand_frontier:
  assumes "in_bounds R C cur" and "f cur = Fin k"
  shows "expand R C cur (f, rest) = (relabel f (frontier R C f cur) k, rest @ frontier R C f cur)"
  using assms
  by (auto simp: expand_eq relabel_def frontier_def fun_eq_iff)

lemma relabel_old: "f x \<noteq> PInf \<Longrightarrow> relabel f (frontier R C f cur) k x = f x"
  by (auto simp: relabel_def frontier_iff)

lemma relabel_new: "x \<in> set (frontier R C f cur) \<Longrightarrow> relabel f (frontier R C f cur) k x = Fin (k + 1)"
  by (simp add: relabel_def)

lemma relabel_Fin:
  "relabel f (frontier R C f cur) k x = Fin d \<longleftrightarrow>
     f x = Fin d \<or> (x \<in> set (frontier R C f cur) \<and> d = k + 1)"
  by (auto simp: relabel_def frontier_iff)

lemma relabel_NaN: "relabel f (frontier R C f cur) k x = NaN \<longleftrightarrow> f x = NaN"
  by (auto simp: relabel_def frontier_iff)

lemma relabel_PInf:
  "relabel f (frontier R C f cur) k x = PInf \<longleftrightarrow> f x = PInf \<and> x \<notin> set (frontier R C f cur)"
  by (auto simp: relabel_def)

lemma val_Fin: "f c = Fin d \<Longrightarrow> val f c = d"
  by (simp add: val_def)

lemma sorted_const: "\<forall>x\<in>set xs. g x = (k::int) \<Longrightarrow> sorted (map g xs)"
  by (induction xs) auto

section \<open>The invariant is preserved\<close>

lemma bfs_inv_step:
  assumes inv: "bfs_inv R C obs dest f (cur # rest)"
  defines "N \<equiv> frontier R C f cur"
  defines "f' \<equiv> relabel f (frontier R C f cur) (val f cur)"
  shows "bfs_inv R C obs dest f' (rest @ N)"
proof -
  let ?k = "val f cur"
  from inv have dest: "in_bounds R C dest" "f dest = Fin 0"
    and obs: "\<And>c. c \<in> set obs \<Longrightarrow> c \<noteq> dest \<Longrightarrow> f c = NaN"
    and nan: "\<And>c. f c = NaN \<Longrightarrow> c \<in> set obs"
    and fin: "\<And>c d. f c = Fin d \<Longrightarrow> in_bounds R C c \<and> 0 \<le> d \<and> reach R C obs dest (nat d) c"
    and pred: "\<And>c d. f c = Fin d \<Longrightarrow> c \<noteq> dest \<Longrightarrow>
                 \<exists>n. adjacent c n \<and> in_bounds R C n \<and> f n = Fin (d - 1)"
    and queue: "\<And>c. c \<in> set (cur # rest) \<Longrightarrow> \<exists>d. f c = Fin d"
    and srt: "sorted (map (val f) (cur # rest))"
    and mx: "\<And>c d. f c = Fin d \<Longrightarrow> d \<le> ?k + 1"
    and dn: "\<And>c d n. f c = Fin d \<Longrightarrow> c \<notin> set (cur # rest) \<Longrightarrow> adjacent c n \<Longrightarrow>
                 in_bounds R C n \<Longrightarrow> n \<notin> set obs \<Longrightarrow> \<exists>v. f n = Fin v \<and> v \<le> d + 1"
    unfolding bfs_inv_def by auto
  from queue [of cur] obtain k0 where "f cur = Fin k0" by auto
  then have cur: "f cur = Fin ?k" by (simp add: val_Fin)
  have cur_fin: "in_bounds R C cur" "0 \<le> ?k" "reach R C obs dest (nat ?k) cur"
    using fin [OF cur] by auto
  have N_iff: "\<And>x. x \<in> set N \<longleftrightarrow> adjacent cur x \<and> in_bounds R C x \<and> f x = PInf"
    by (simp add: N_def frontier_iff)
  have old: "\<And>x. f x \<noteq> PInf \<Longrightarrow> f' x = f x"
    by (simp add: f'_def relabel_old)
  have new: "\<And>x. x \<in> set N \<Longrightarrow> f' x = Fin (?k + 1)"
    by (simp add: f'_def N_def relabel_new)
  have Fin_iff: "\<And>x d. f' x = Fin d \<longleftrightarrow> f x = Fin d \<or> (x \<in> set N \<and> d = ?k + 1)"
    by (simp add: f'_def N_def relabel_Fin)
  have NaN_iff: "\<And>x. f' x = NaN \<longleftrightarrow> f x = NaN"
    by (simp add: f'_def relabel_NaN)
  have N_free: "\<And>x. x \<in> set N \<Longrightarrow> x \<notin> set obs"
  proof
    fix x assume x: "x \<in> set N" "x \<in> set obs"
    then have "f x = PInf" by (simp add: N_iff)
    with obs [OF x(2)] dest(2) show False by (cases "x = dest") auto
  qed
  have val_old: "\<And>x d. f x = Fin d \<Longrightarrow> val f' x = d"
    using old by (simp add: val_def)

  have 1: "in_bounds R C dest \<and> f' dest = Fin 0"
    using dest old by simp
  have 2: "\<forall>c\<in>set obs. c \<noteq> dest \<longrightarrow> f' c = NaN"
    using obs NaN_iff by simp
  have 3: "\<forall>c. f' c = NaN \<longrightarrow> c \<in> set obs"
    using nan NaN_iff by simp
  have 4: "\<forall>c d. f' c = Fin d \<longrightarrow> in_bounds R C c \<and> 0 \<le> d \<and> reach R C obs dest (nat d) c"
  proof (intro allI impI)
    fix c d assume "f' c = Fin d"
    then consider "f c = Fin d" | "c \<in> set N" "d = ?k + 1" by (auto simp: Fin_iff)
    then show "in_bounds R C c \<and> 0 \<le> d \<and> reach R C obs dest (nat d) c"
    proof cases
      case 1
      then show ?thesis using fin by simp
    next
      case 2
      have "reach R C obs dest (Suc (nat ?k)) c"
        using cur_fin(3) 2(1) N_free [OF 2(1)] by (intro reach_step [of _ _ _ _ _ cur]) (auto simp: N_iff)
      moreover have "nat (?k + 1) = Suc (nat ?k)" using cur_fin(2) by simp
      ultimately show ?thesis using 2 cur_fin(2) by (simp add: N_iff)
    qed
  qed
  have 5: "\<forall>c d. f' c = Fin d \<longrightarrow> c \<noteq> dest \<longrightarrow>
             (\<exists>n. adjacent c n \<and> in_bounds R C n \<and> f' n = Fin (d - 1))"
  proof (intro allI impI)
    fix c d assume c: "f' c = Fin d" "c \<noteq> dest"
    then consider "f c = Fin d" | "c \<in> set N" "d = ?k + 1" by (auto simp: Fin_iff)
    then show "\<exists>n. adjacent c n \<and> in_bounds R C n \<and> f' n = Fin (d - 1)"
    proof cases
      case 1
      from pred [OF 1 c(2)] obtain n where "adjacent c n" "in_bounds R C n" "f n = Fin (d - 1)"
        by auto
      then have "adjacent c n \<and> in_bounds R C n \<and> f' n = Fin (d - 1)"
        using old [of n] by simp
      then show ?thesis by blast
    next
      case 2
      have "adjacent c cur" using 2(1) by (simp add: N_iff adjacent_sym)
      moreover have "f' cur = Fin (d - 1)" using old [of cur] cur 2(2) by simp
      ultimately have "adjacent c cur \<and> in_bounds R C cur \<and> f' cur = Fin (d - 1)"
        using cur_fin(1) by simp
      then show ?thesis by blast
    qed
  qed
  have 6: "\<forall>c\<in>set (rest @ N). \<exists>d. f' c = Fin d"
  proof
    fix c assume "c \<in> set (rest @ N)"
    then consider "c \<in> set rest" | "c \<in> set N" by auto
    then show "\<exists>d. f' c = Fin d"
    proof cases
      case 1
      then obtain d where "f c = Fin d" using queue [of c] by auto
      then show ?thesis using old [of c] by simp
    next
      case 2
      then show ?thesis using new by auto
    qed
  qed
  have rest_val: "\<And>c. c \<in> set rest \<Longrightarrow> val f' c = val f c \<and> ?k \<le> val f c \<and> val f c \<le> ?k + 1"
  proof -
    fix c assume c: "c \<in> set rest"
    then obtain d where d: "f c = Fin d" using queue [of c] by auto
    have "?k \<le> val f c" using srt c by auto
    moreover have "val f c \<le> ?k + 1" using mx [OF d] d by (simp add: val_Fin)
    ultimately show "val f' c = val f c \<and> ?k \<le> val f c \<and> val f c \<le> ?k + 1"
      using val_old [OF d] d by (simp add: val_Fin)
  qed
  have N_val: "\<And>c. c \<in> set N \<Longrightarrow> val f' c = ?k + 1"
    using new by (simp add: val_def)
  have 7: "sorted (map (val f') (rest @ N))"
  proof -
    have e: "map (val f') rest = map (val f) rest" using rest_val by simp
    have "sorted (map (val f) rest)" using srt by simp
    then have "sorted (map (val f') rest)" by (simp only: e)
    moreover have "sorted (map (val f') N)" using N_val by (intro sorted_const [of _ _ "?k + 1"]) simp
    moreover have "\<forall>x\<in>set rest. \<forall>y\<in>set N. val f' x \<le> val f' y"
      using rest_val N_val by simp
    ultimately show ?thesis by (simp add: sorted_append)
  qed
  have 8: "rest @ N \<noteq> [] \<longrightarrow> (\<forall>c d. f' c = Fin d \<longrightarrow> d \<le> val f' (hd (rest @ N)) + 1)"
  proof (intro impI allI)
    fix c d assume ne: "rest @ N \<noteq> []" and c: "f' c = Fin d"
    have d: "d \<le> ?k + 1" using c mx [of c d] by (auto simp: Fin_iff)
    have "hd (rest @ N) \<in> set (rest @ N)" using ne by (intro hd_in_set)
    then have "?k \<le> val f' (hd (rest @ N))"
      using rest_val [of "hd (rest @ N)"] N_val [of "hd (rest @ N)"] by auto
    with d show "d \<le> val f' (hd (rest @ N)) + 1" by simp
  qed
  have 9: "\<forall>c d n. f' c = Fin d \<longrightarrow> c \<notin> set (rest @ N) \<longrightarrow> adjacent c n \<longrightarrow> in_bounds R C n
             \<longrightarrow> n \<notin> set obs \<longrightarrow> (\<exists>v. f' n = Fin v \<and> v \<le> d + 1)"
  proof (intro allI impI)
    fix c d n
    assume c: "f' c = Fin d" "c \<notin> set (rest @ N)" and n: "adjacent c n" "in_bounds R C n" "n \<notin> set obs"
    from c have fc: "f c = Fin d" by (auto simp: Fin_iff)
    show "\<exists>v. f' n = Fin v \<and> v \<le> d + 1"
    proof (cases "c = cur")
      case True
      then have dk: "d = ?k" using fc cur by simp
      show ?thesis
      proof (cases "f n")
        case (Fin v)
        then show ?thesis using mx [OF Fin] old [of n] dk by simp
      next
        case PInf
        then have "n \<in> set N" using n True by (simp add: N_iff)
        then show ?thesis using new dk by simp
      next
        case NaN
        then show ?thesis using nan n(3) by auto
      qed
    next
      case False
      then have "c \<notin> set (cur # rest)" using c(2) by simp
      from dn [OF fc this n] obtain v where "f n = Fin v" "v \<le> d + 1" by auto
      then show ?thesis using old [of n] by simp
    qed
  qed
  show ?thesis
    unfolding bfs_inv_def using 1 2 3 4 5 6 7 8 9 by blast
qed

section \<open>The expansion terminates\<close>

text \<open>
  Each iteration removes one cell from the queue and turns exactly the cells it appends
  from unreached to finite, so the number of unreached cells plus the length of the queue
  drops by one.  \<open>bfs_run\<close> is the induction on that measure: from a state that satisfies
  the invariant the loop returns, in a state that satisfies it with an empty queue.
\<close>

lemma in_bounds_set: "{c. in_bounds R C c} = {0..<R} \<times> {0..<C}"
  by (auto simp: in_bounds_def)

lemma finite_in_bounds: "finite {c. in_bounds R C c}"
  by (simp add: in_bounds_set)

lemma card_in_bounds: "card {c. in_bounds R C c} = nat R * nat C"
  by (simp add: in_bounds_set card_cartesian_product)

lemma infcount_step:
  "infcount R C (relabel f (frontier R C f cur) k) + length (frontier R C f cur) = infcount R C f"
proof -
  let ?N = "frontier R C f cur"
  let ?A = "{c. in_bounds R C c \<and> f c = PInf}"
  have fin: "finite ?A" using finite_in_bounds [of R C] by (rule rev_finite_subset) auto
  have sub: "set ?N \<subseteq> ?A" by (auto simp: frontier_iff)
  have "{c. in_bounds R C c \<and> relabel f ?N k c = PInf} = ?A - set ?N"
    by (auto simp: relabel_PInf)
  then have "infcount R C (relabel f ?N k) = card ?A - card (set ?N)"
    using sub by (simp add: infcount_def card_Diff_subset)
  moreover have "card (set ?N) \<le> card ?A" using fin sub by (rule card_mono)
  moreover have "card (set ?N) = length ?N" by (simp add: distinct_card distinct_frontier)
  ultimately show ?thesis by (simp add: infcount_def)
qed

lemma bfs_inv_init:
  assumes "in_bounds R C dest"
  shows "bfs_inv R C obs dest
           (\<lambda>c. if c = dest then Fin 0 else if c \<in> set obs then NaN else PInf) [dest]"
  unfolding bfs_inv_def using assms
  by (auto simp: val_def intro: reach_dest split: if_splits)

lemma bfs_run:
  assumes "bfs_inv R C obs dest f q" and "distinct enq" and "set enq = {c. \<exists>d. f c = Fin d}"
  shows "\<exists>f' enq'. bfs R C f q = Some f' \<and> bfs_log R C f q enq = Some (f', enq')
           \<and> bfs_inv R C obs dest f' [] \<and> (\<forall>c. f c \<noteq> PInf \<longrightarrow> f' c = f c)
           \<and> distinct enq' \<and> set enq' = {c. \<exists>d. f' c = Fin d}"
  using assms
proof (induction "infcount R C f + length q" arbitrary: f q enq rule: less_induct)
  case less
  show ?case
  proof (cases q)
    case Nil
    have "bfs R C f q = Some f" by (subst bfs.simps) (simp add: Nil)
    moreover have "bfs_log R C f q enq = Some (f, enq)" by (subst bfs_log.simps) (simp add: Nil)
    ultimately show ?thesis using less.prems Nil by auto
  next
    case (Cons cur rest)
    let ?N = "frontier R C f cur"
    let ?f = "relabel f ?N (val f cur)"
    from less.prems(1) obtain k where k: "f cur = Fin k" and ib: "in_bounds R C cur"
      unfolding bfs_inv_def Cons by auto
    have ex: "expand R C cur (f, rest) = (?f, rest @ ?N)"
      using expand_frontier [of R C cur f k rest] ib k by (simp add: val_Fin)
    have inv': "bfs_inv R C obs dest ?f (rest @ ?N)"
      using bfs_inv_step [of R C obs dest f cur rest] less.prems(1) by (simp add: Cons)
    have old: "\<And>c. f c \<noteq> PInf \<Longrightarrow> ?f c = f c" by (simp add: relabel_old)
    have dist: "distinct (enq @ ?N)"
      using less.prems(2,3) by (auto simp: distinct_frontier frontier_iff)
    have st: "set (enq @ ?N) = {c. \<exists>d. ?f c = Fin d}"
      using less.prems(3) by (auto simp: relabel_Fin)
    have m: "infcount R C ?f + length (rest @ ?N) < infcount R C f + length q"
      using infcount_step [of R C f cur "val f cur"] by (simp add: Cons)
    from less.hyps [OF m inv' dist st] obtain f' enq' where
      r: "bfs R C ?f (rest @ ?N) = Some f'" "bfs_log R C ?f (rest @ ?N) (enq @ ?N) = Some (f', enq')"
        "bfs_inv R C obs dest f' []" "\<forall>c. ?f c \<noteq> PInf \<longrightarrow> f' c = ?f c"
        "distinct enq'" "set enq' = {c. \<exists>d. f' c = Fin d}"
      by blast
    have "bfs R C f q = Some f'"
      by (subst bfs.simps) (simp add: Cons ex r(1))
    moreover have "bfs_log R C f q enq = Some (f', enq')"
      by (subst bfs_log.simps) (simp add: Cons ex r(2))
    moreover have "\<forall>c. f c \<noteq> PInf \<longrightarrow> f' c = f c"
    proof (intro allI impI)
      fix c assume c: "f c \<noteq> PInf"
      then have "?f c = f c" by (rule old)
      with c r(4) [rule_format, of c] show "f' c = f c" by simp
    qed
    ultimately show ?thesis using r(3,5,6) by blast
  qed
qed

lemma bfs_inv_complete:
  assumes "bfs_inv R C obs dest f []" and "reach R C obs dest n c"
  shows "\<exists>d. f c = Fin d \<and> d \<le> int n"
  using assms(2)
proof (induction rule: reach.induct)
  case reach_dest
  then show ?case using assms(1) by (simp add: bfs_inv_def)
next
  case (reach_step n p q)
  then obtain d where d: "f p = Fin d" "d \<le> int n" by auto
  from assms(1) have "\<forall>c d n. f c = Fin d \<longrightarrow> c \<notin> set [] \<longrightarrow> adjacent c n \<longrightarrow> in_bounds R C n
      \<longrightarrow> n \<notin> set obs \<longrightarrow> (\<exists>v. f n = Fin v \<and> v \<le> d + 1)"
    unfolding bfs_inv_def by blast
  then have "\<exists>v. f q = Fin v \<and> v \<le> d + 1"
    using d(1) reach_step.hyps(2,3,4) by (simp del: split_paired_All split_paired_Ex)
  then show ?case using d(2) by auto
qed

lemma distance_field_run:
  assumes "\<forall>ob\<in>set obs. in_bounds R C ob" and "in_bounds R C dest"
  defines "f0 \<equiv> (\<lambda>c. if c = dest then Fin 0 else if c \<in> set obs then NaN else PInf)"
  shows "\<exists>f enq. init_field R C obs dest = Inr f0 \<and> bfs R C f0 [dest] = Some f
           \<and> bfs_log R C f0 [dest] [dest] = Some (f, enq)
           \<and> distance_field R C obs dest = Some (Inr f)
           \<and> bfs_inv R C obs dest f [] \<and> (\<forall>c. f0 c \<noteq> PInf \<longrightarrow> f c = f0 c)
           \<and> distinct enq \<and> set enq = {c. \<exists>d. f c = Fin d}"
proof -
  have i: "init_field R C obs dest = Inr f0"
    unfolding f0_def using assms(1,2) by (rule init_field_in_bounds)
  have inv: "bfs_inv R C obs dest f0 [dest]"
    unfolding f0_def using assms(2) by (rule bfs_inv_init)
  have st: "set [dest] = {c. \<exists>d. f0 c = Fin d}"
    by (auto simp: f0_def split: if_splits)
  from bfs_run [OF inv _ st] obtain f enq where
    r: "bfs R C f0 [dest] = Some f" "bfs_log R C f0 [dest] [dest] = Some (f, enq)"
      "bfs_inv R C obs dest f []" "\<forall>c. f0 c \<noteq> PInf \<longrightarrow> f c = f0 c"
      "distinct enq" "set enq = {c. \<exists>d. f c = Fin d}"
    by auto
  have "distance_field R C obs dest = Some (Inr f)"
    by (simp add: distance_field_def i r(1))
  with i r show ?thesis by blast
qed

lemma grassfire_field:
  "grassfire_algorithm obs start dest R C = Some (Inr (p, g))
   \<Longrightarrow> distance_field R C obs dest = Some (Inr g)"
  by (auto simp: grassfire_algorithm_def split: option.splits sum.splits)

lemma bfs_inv_min:
  assumes "bfs_inv R C obs dest f []" and "reach R C obs dest n c"
  shows "\<exists>d. f c = Fin (int d) \<and> reach R C obs dest d c \<and> d \<le> n"
proof -
  from bfs_inv_complete [OF assms] obtain v where v: "f c = Fin v" "v \<le> int n" by auto
  from assms(1) have "\<forall>c d. f c = Fin d \<longrightarrow> in_bounds R C c \<and> 0 \<le> d \<and> reach R C obs dest (nat d) c"
    unfolding bfs_inv_def by blast
  with v(1) have "0 \<le> v" "reach R C obs dest (nat v) c" by blast+
  with v have "f c = Fin (int (nat v)) \<and> reach R C obs dest (nat v) c \<and> nat v \<le> n" by simp
  then show ?thesis by blast
qed

section \<open>The distance field is the shortest distance\<close>

text \<open>
  C1, amended.  For every grid shape, every obstacle set of cells of the grid and every
  destination inside the grid, the distance field is computed, and it is the field that
  \<open>grassfire_algorithm\<close> returns whenever it returns.  Every cell that a walk from the
  destination reaches through cells that are not obstacles (the destination itself being
  passable even when it is listed as an obstacle) holds the length of a shortest such
  walk; every cell that no such walk reaches holds \<open>inf\<close> or NaN; and every obstacle
  other than the destination holds NaN.
\<close>

theorem field_shortest_distance:
  assumes "\<forall>ob\<in>set obstacles. in_bounds num_rows num_cols ob"
    and "in_bounds num_rows num_cols destination_point"
  shows "\<exists>field. distance_field num_rows num_cols obstacles destination_point = Some (Inr field)
     \<and> (\<forall>c n. reach num_rows num_cols obstacles destination_point n c \<longrightarrow>
           (\<exists>d. field c = Fin (int d) \<and> d \<le> n
                \<and> reach num_rows num_cols obstacles destination_point d c))
     \<and> (\<forall>c. (\<forall>n. \<not> reach num_rows num_cols obstacles destination_point n c) \<longrightarrow>
           field c = PInf \<or> field c = NaN)
     \<and> (\<forall>c\<in>set obstacles. c \<noteq> destination_point \<longrightarrow> field c = NaN)
     \<and> (\<forall>start_point path g.
           grassfire_algorithm obstacles start_point destination_point num_rows num_cols
             = Some (Inr (path, g)) \<longrightarrow> g = field)"
proof -
  from distance_field_run [OF assms] obtain f where
    f: "distance_field num_rows num_cols obstacles destination_point = Some (Inr f)"
      "bfs_inv num_rows num_cols obstacles destination_point f []"
    by blast
  have a: "\<forall>c n. reach num_rows num_cols obstacles destination_point n c \<longrightarrow>
           (\<exists>d. f c = Fin (int d) \<and> d \<le> n
                \<and> reach num_rows num_cols obstacles destination_point d c)"
    using bfs_inv_min [OF f(2)] by blast
  have fin: "\<forall>c d. f c = Fin d \<longrightarrow> reach num_rows num_cols obstacles destination_point (nat d) c"
    using f(2) unfolding bfs_inv_def by blast
  have b: "\<forall>c. (\<forall>n. \<not> reach num_rows num_cols obstacles destination_point n c) \<longrightarrow>
           f c = PInf \<or> f c = NaN"
  proof (intro allI impI)
    fix c assume un: "\<forall>n. \<not> reach num_rows num_cols obstacles destination_point n c"
    show "f c = PInf \<or> f c = NaN"
    proof (cases "f c")
      case (Fin d)
      with fin un show ?thesis by blast
    qed auto
  qed
  have c: "\<forall>c\<in>set obstacles. c \<noteq> destination_point \<longrightarrow> f c = NaN"
    using f(2) unfolding bfs_inv_def by blast
  have d: "\<forall>start_point path g.
           grassfire_algorithm obstacles start_point destination_point num_rows num_cols
             = Some (Inr (path, g)) \<longrightarrow> g = f"
    using f(1) grassfire_field by fastforce
  from f(1) a b c d show ?thesis by blast
qed

text \<open>
  The theorem at the grid of one row and two columns without obstacles, destination
  \<open>(0, 1)\<close>: the cell \<open>(0, 0)\<close> is one step away and holds a distance \<open>d \<le> 1\<close> that
  is the length of a walk.
\<close>

theorem field_shortest_distance_witness:
  "\<exists>field d. distance_field 1 2 [] (0, 1) = Some (Inr field) \<and> field (0, 0) = Fin (int d)
      \<and> d \<le> 1 \<and> reach 1 2 [] (0, 1) d (0, 0)"
proof -
  have "reach 1 2 [] (0, 1) (Suc 0) (0, 0)"
    by (rule reach_step [OF reach_dest]) (simp_all add: adjacent_def in_bounds_def)
  then show ?thesis
    using field_shortest_distance [of "[]" 1 2 "(0, 1)"]
    by (simp add: in_bounds_def) blast
qed

text \<open>
  C1 as it is stated fails where the destination is listed as an obstacle: on the grid of
  one cell whose only cell is both, that blocked cell holds the finite value 0 and not a
  sentinel.
\<close>

theorem blocked_destination_is_finite:
  "(0::int, 0::int) \<in> set [(0, 0)]
   \<and> value_at (distance_field 1 1 [(0, 0)] (0, 0)) (0, 0) = Some (Fin 0)"
  by code_simp

section \<open>The expansion never overwrites\<close>

lemma visit_keeps: "fst st c \<noteq> PInf \<Longrightarrow> fst (visit R C cur st d) c = fst st c"
  by (cases cur; cases st; cases d) (auto simp: Let_def isinf_iff)

lemma foldl_visit_keeps: "fst st c \<noteq> PInf \<Longrightarrow> fst (foldl (visit R C cur) st ds) c = fst st c"
  by (induction ds arbitrary: st) (simp_all add: visit_keeps)

lemma expand_keeps: "f c \<noteq> PInf \<Longrightarrow> fst (expand R C cur (f, q)) c = f c"
  unfolding expand_def using foldl_visit_keeps [of "(f, q)" c R C cur directions] by simp

lemma bfs_keeps:
  assumes "bfs R C f q = Some f'" and "f c \<noteq> PInf"
  shows "f' c = f c"
  using assms
proof (induction R C f q f' rule: bfs.raw_induct [rotated 1, consumes 1, case_names step])
  case (step bfs R C f q f')
  show ?case
  proof (cases "q = []")
    case True
    with step(2) show ?thesis by simp
  next
    case False
    let ?st = "expand R C (hd q) (f, tl q)"
    have e: "fst ?st c = f c" using expand_keeps [of f c R C "hd q" "tl q"] step(3) by simp
    from step(2) False have "bfs R C (fst ?st) (snd ?st) = Some f'" by (simp add: Let_def)
    from step(1) [OF this] e step(3) show ?thesis by simp
  qed
qed


section \<open>Claims about the distance field\<close>

lemma grassfire_returns_field:
  assumes "distance_field R C obs dest = Some (Inr f)"
  shows "\<forall>start path g. grassfire_algorithm obs start dest R C = Some (Inr (path, g)) \<longrightarrow> g = f"
  using assms grassfire_field by fastforce

text \<open>
  C4.  For every grid shape, every obstacle set of cells of the grid and every destination
  inside the grid, also one that is listed as an obstacle, the distance field is computed
  and maps the destination to 0; it is the field that \<open>grassfire_algorithm\<close> returns
  whenever it returns.
\<close>

theorem destination_is_zero:
  assumes "\<forall>ob\<in>set obstacles. in_bounds num_rows num_cols ob"
    and "in_bounds num_rows num_cols destination_point"
  shows "\<exists>field. distance_field num_rows num_cols obstacles destination_point = Some (Inr field)
     \<and> field destination_point = Fin 0
     \<and> (\<forall>start_point path g.
           grassfire_algorithm obstacles start_point destination_point num_rows num_cols
             = Some (Inr (path, g)) \<longrightarrow> g = field)"
proof -
  from distance_field_run [OF assms] obtain f where
    f: "distance_field num_rows num_cols obstacles destination_point = Some (Inr f)"
      "bfs_inv num_rows num_cols obstacles destination_point f []"
    by blast
  from f(2) have "f destination_point = Fin 0" unfolding bfs_inv_def by blast
  with f(1) grassfire_returns_field [OF f(1)] show ?thesis by blast
qed

text \<open>The theorem where the destination \<open>(1, 1)\<close> of a 2 by 2 grid is the only obstacle.\<close>

theorem destination_is_zero_witness:
  "\<exists>field. distance_field 2 2 [(1, 1)] (1, 1) = Some (Inr field) \<and> field (1, 1) = Fin 0"
  using destination_is_zero [of "[(1, 1)]" 2 2 "(1, 1)"]
  by (auto simp: in_bounds_def)

text \<open>
  C9.  In the field that \<open>grassfire_algorithm\<close> returns, every finite value is a
  non-negative integer, and every cell other than the destination that holds a finite
  value \<open>d\<close> has an orthogonal neighbour inside the grid that holds \<open>d - 1\<close>.
\<close>

theorem finite_values_have_predecessor:
  assumes "\<forall>ob\<in>set obstacles. in_bounds num_rows num_cols ob"
    and "in_bounds num_rows num_cols destination_point"
  shows "\<exists>field. distance_field num_rows num_cols obstacles destination_point = Some (Inr field)
     \<and> (\<forall>c d. field c = Fin d \<longrightarrow>
            0 \<le> d \<and> (c \<noteq> destination_point \<longrightarrow>
              (\<exists>n. adjacent c n \<and> in_bounds num_rows num_cols n \<and> field n = Fin (d - 1))))
     \<and> (\<forall>start_point path g.
           grassfire_algorithm obstacles start_point destination_point num_rows num_cols
             = Some (Inr (path, g)) \<longrightarrow> g = field)"
proof -
  from distance_field_run [OF assms] obtain f where
    f: "distance_field num_rows num_cols obstacles destination_point = Some (Inr f)"
      "bfs_inv num_rows num_cols obstacles destination_point f []"
    by blast
  from f(2) have "\<forall>c d. f c = Fin d \<longrightarrow> 0 \<le> d" unfolding bfs_inv_def by blast
  moreover from f(2) have "\<forall>c d. f c = Fin d \<longrightarrow> c \<noteq> destination_point \<longrightarrow>
      (\<exists>n. adjacent c n \<and> in_bounds num_rows num_cols n \<and> f n = Fin (d - 1))"
    unfolding bfs_inv_def by blast
  ultimately have "\<forall>c d. f c = Fin d \<longrightarrow>
            0 \<le> d \<and> (c \<noteq> destination_point \<longrightarrow>
              (\<exists>n. adjacent c n \<and> in_bounds num_rows num_cols n \<and> f n = Fin (d - 1)))"
    by blast
  with f(1) grassfire_returns_field [OF f(1)] show ?thesis by blast
qed

text \<open>
  The theorem on the grid of one row and two columns, destination \<open>(0, 1)\<close>: the cell
  \<open>(0, 0)\<close> holds 1 and has a neighbour holding 0.
\<close>

theorem finite_values_have_predecessor_witness:
  "value_at (distance_field 1 2 [] (0, 1)) (0, 0) = Some (Fin 1)
   \<and> (\<exists>n. adjacent (0, 0) n \<and> in_bounds 1 2 n
          \<and> value_at (distance_field 1 2 [] (0, 1)) n = Some (Fin 0))"
proof -
  have v: "value_at (distance_field 1 2 [] (0, 1)) (0, 0) = Some (Fin 1)" by code_simp
  from finite_values_have_predecessor [of "[]" 1 2 "(0, 1)"] obtain field where
    f: "distance_field 1 2 [] (0, 1) = Some (Inr field)"
      "\<forall>c d. field c = Fin d \<longrightarrow>
            0 \<le> d \<and> (c \<noteq> (0, 1) \<longrightarrow>
              (\<exists>n. adjacent c n \<and> in_bounds 1 2 n \<and> field n = Fin (d - 1)))"
    by (auto simp: in_bounds_def)
  from v f(1) have "field (0, 0) = Fin 1" by (simp add: value_at_def)
  with f(2) have "\<exists>n. adjacent (0, 0) n \<and> in_bounds 1 2 n \<and> field n = Fin (1 - 1)"
    by (metis prod.inject zero_neq_one)
  with v f(1) show ?thesis by (simp add: value_at_def)
qed

text \<open>
  C10.  When the start is the destination, a cell of the grid, \<open>grassfire_algorithm\<close>
  returns the path made of that one cell, whether or not the cell is listed as an
  obstacle.
\<close>

theorem start_equals_destination:
  assumes "\<forall>ob\<in>set obstacles. in_bounds num_rows num_cols ob"
    and "in_bounds num_rows num_cols p"
  shows "\<exists>field. grassfire_algorithm obstacles p p num_rows num_cols = Some (Inr ([p], field))"
proof -
  from distance_field_run [OF assms] obtain f where
    f: "distance_field num_rows num_cols obstacles p = Some (Inr f)"
      "bfs_inv num_rows num_cols obstacles p f []"
    by blast
  from f(2) have z: "f p = Fin 0" unfolding bfs_inv_def by blast
  have w: "walk num_rows num_cols f p p [] = Some (Inr [p])"
    by (subst walk.simps) simp
  have "reconstruct num_rows num_cols f p p = Some (Inr [p])"
    using assms(2) z w by (simp add: reconstruct_def in_bounds_valid aget_in_bounds)
  then have "grassfire_algorithm obstacles p p num_rows num_cols = Some (Inr ([p], f))"
    using f(1) by (simp add: grassfire_algorithm_def)
  then show ?thesis by blast
qed

text \<open>The theorem on the grid of one cell, which is start, destination and obstacle.\<close>

theorem start_equals_destination_witness:
  "\<exists>field. grassfire_algorithm [(0, 0)] (0, 0) (0, 0) 1 1 = Some (Inr ([(0, 0)], field))"
  using start_equals_destination [of "[(0, 0)]" 1 1 "(0, 0)"]
  by (simp add: in_bounds_def)

text \<open>
  C8.  The expansion started by \<open>grassfire_algorithm\<close> ends (\<open>bfs\<close> and its logged twin
  \<open>bfs_log\<close> return the same field); a cell that does not hold \<open>inf\<close>, so a blocked cell
  or one that already has its distance, keeps its value in the run and in every single
  step of the inner loop; no cell is put into the queue twice; and the number of cells
  put into the queue, the destination included, is at most \<open>num_rows * num_cols\<close>.
\<close>

theorem expansion_bounded:
  assumes "\<forall>ob\<in>set obstacles. in_bounds num_rows num_cols ob"
    and "in_bounds num_rows num_cols destination_point"
  shows "\<exists>f0 field enq.
       init_field num_rows num_cols obstacles destination_point = Inr f0
     \<and> bfs_log num_rows num_cols f0 [destination_point] [destination_point] = Some (field, enq)
     \<and> bfs num_rows num_cols f0 [destination_point] = Some field
     \<and> (\<forall>c. f0 c \<noteq> PInf \<longrightarrow> field c = f0 c)
     \<and> (\<forall>g q cur d c. g c \<noteq> PInf \<longrightarrow> fst (visit num_rows num_cols cur (g, q) d) c = g c)
     \<and> distinct enq
     \<and> int (length enq) \<le> num_rows * num_cols"
proof -
  let ?f0 = "\<lambda>c. if c = destination_point then Fin 0 else if c \<in> set obstacles then NaN else PInf"
  from distance_field_run [OF assms] obtain f enq where
    r: "init_field num_rows num_cols obstacles destination_point = Inr ?f0"
      "bfs num_rows num_cols ?f0 [destination_point] = Some f"
      "bfs_log num_rows num_cols ?f0 [destination_point] [destination_point] = Some (f, enq)"
      "bfs_inv num_rows num_cols obstacles destination_point f []"
      "\<forall>c. ?f0 c \<noteq> PInf \<longrightarrow> f c = ?f0 c"
      "distinct enq" "set enq = {c. \<exists>d. f c = Fin d}"
    by blast
  from r(4) have "\<forall>c d. f c = Fin d \<longrightarrow> in_bounds num_rows num_cols c"
    unfolding bfs_inv_def by blast
  then have "set enq \<subseteq> {c. in_bounds num_rows num_cols c}" using r(7) by blast
  then have "card (set enq) \<le> card {c. in_bounds num_rows num_cols c}"
    using finite_in_bounds by (intro card_mono)
  then have "length enq \<le> nat num_rows * nat num_cols"
    using r(6) by (simp add: distinct_card card_in_bounds)
  moreover have "0 \<le> num_rows" "0 \<le> num_cols" using assms(2) by (auto simp: in_bounds_def)
  ultimately have len: "int (length enq) \<le> num_rows * num_cols"
    by (metis int_nat_eq nat_mult_distrib of_nat_le_iff of_nat_mult)
  have keep: "\<forall>g q cur d c. g c \<noteq> PInf \<longrightarrow> fst (visit num_rows num_cols cur (g, q) d) c = g c"
    using visit_keeps [of "(g, q)" for g q] by simp
  from r(1,2,3,5,6) len keep show ?thesis by blast
qed

text \<open>The theorem on a 2 by 2 grid with the obstacle \<open>(0, 1)\<close> and the destination \<open>(1, 1)\<close>.\<close>

theorem expansion_bounded_witness:
  "\<exists>f0 field enq. init_field 2 2 [(0, 1)] (1, 1) = Inr f0
     \<and> bfs_log 2 2 f0 [(1, 1)] [(1, 1)] = Some (field, enq)
     \<and> bfs 2 2 f0 [(1, 1)] = Some field
     \<and> distinct enq \<and> int (length enq) \<le> 2 * 2"
  using expansion_bounded [of "[(0, 1)]" 2 2 "(1, 1)"]
  by (simp add: in_bounds_def) blast

section \<open>The walk\<close>

text \<open>Every comparison with NaN is false.\<close>

lemma feq_NaN [simp]: "feq x NaN = False" "feq NaN x = False"
  by (cases x; simp)+

lemma flt_NaN [simp]: "flt x NaN = False" "flt NaN x = False"
  by (cases x; simp)+

lemma fge_NaN [simp]: "fge x NaN = False" "fge NaN x = False"
  by (cases x; simp)+

lemma not_fge_flt: "x \<noteq> NaN \<Longrightarrow> y \<noteq> NaN \<Longrightarrow> \<not> fge x y \<Longrightarrow> flt x y"
  by (cases x; cases y) auto

lemma min_from_mem: "min_from f best ps \<in> set (best # ps)"
  by (induction ps arbitrary: best) auto

lemma py_min_mem: "py_min f xs = Some x \<Longrightarrow> x \<in> set xs"
  using min_from_mem [of f "hd xs" "tl xs"] by (cases xs) auto

lemma choose_next_mem:
  "choose_next R C f cur = Some n \<Longrightarrow> adjacent cur n \<and> in_bounds R C n"
  using py_min_mem [of f "candidates R C cur" n]
  by (auto simp: choose_next_def candidates_neighbours adjacent_neighbours)

text \<open>
  What a walk that returns a non-empty path has done: from \<open>cur\<close> it went through cells
  \<open>more\<close> of the grid, each an orthogonal neighbour of the one before and each passing
  the test of line 80, and ended at the destination; the result is the reversed list.
\<close>

lemma walk_path:
  assumes "walk R C f dest cur acc = Some y"
  shows "\<forall>p. y = Inr p \<longrightarrow> p \<noteq> [] \<longrightarrow>
           (\<exists>more. p = rev (acc @ cur # more) \<and> last (cur # more) = dest
              \<and> successively adjacent (cur # more) \<and> (\<forall>c\<in>set more. in_bounds R C c)
              \<and> successively (\<lambda>a b. \<not> fge (f b) (aget R C f a)) (cur # more))"
  using assms
proof (induction R C f dest cur acc y rule: walk.raw_induct [rotated 1, consumes 1, case_names step])
  case (step walk R C f dest cur acc y)
  show ?case
  proof (intro allI impI)
    fix p assume p: "y = Inr p" "p \<noteq> []"
    show "\<exists>more. p = rev (acc @ cur # more) \<and> last (cur # more) = dest
              \<and> successively adjacent (cur # more) \<and> (\<forall>c\<in>set more. in_bounds R C c)
              \<and> successively (\<lambda>a b. \<not> fge (f b) (aget R C f a)) (cur # more)"
    proof (cases "cur = dest")
      case True
      with step(2) p have "p = rev (acc @ cur # [])" by simp
      with True show ?thesis by (intro exI [of _ "[]"]) simp
    next
      case False
      with step(2) p obtain n where n: "choose_next R C f cur = Some n"
        by (cases "choose_next R C f cur") auto
      from step(2) p False n have ng: "\<not> fge (f n) (aget R C f cur)"
        by (auto split: if_splits)
      with step(2) False n have "walk R C f dest n (acc @ [cur]) = Some y" by simp
      from step(1) [OF this] p obtain more where
        m: "p = rev ((acc @ [cur]) @ n # more)" "last (n # more) = dest"
          "successively adjacent (n # more)" "\<forall>c\<in>set more. in_bounds R C c"
          "successively (\<lambda>a b. \<not> fge (f b) (aget R C f a)) (n # more)"
        by blast
      from choose_next_mem [OF n] have a: "adjacent cur n" "in_bounds R C n" by auto
      have "p = rev (acc @ cur # (n # more)) \<and> last (cur # (n # more)) = dest
              \<and> successively adjacent (cur # (n # more))
              \<and> (\<forall>c\<in>set (n # more). in_bounds R C c)
              \<and> successively (\<lambda>a b. \<not> fge (f b) (aget R C f a)) (cur # (n # more))"
        using m a ng by simp
      then show ?thesis by blast
    qed
  qed
qed

lemma distance_field_dest:
  assumes "distance_field R C obs dest = Some (Inr f)" and "in_bounds R C dest"
  shows "f dest = Fin 0"
proof -
  from assms(1) obtain f0 where i: "init_field R C obs dest = Inr f0" and b: "bfs R C f0 [dest] = Some f"
    by (auto simp: distance_field_def split: sum.splits)
  from i assms(2) have "f0 dest = Fin 0"
    by (auto simp: init_field_def wrap_in_bounds split: if_splits sum.splits)
  with bfs_keeps [OF b, of dest] show ?thesis by simp
qed

section \<open>Claims about the path\<close>

text \<open>
  C2, amended.  Every non-empty path that \<open>grassfire_algorithm\<close> returns for a start
  inside the grid is ordered from the destination to the start (line 83 reverses the
  list that the walk built): its first element is the destination, its last element is
  the start, consecutive cells are orthogonal neighbours, the destination holds 0, and,
  when no cell of the path holds NaN, the field values strictly increase along the
  returned order, from 0 at the destination to the value of the start.
\<close>

theorem returned_path_order:
  assumes "grassfire_algorithm obstacles start_point destination_point num_rows num_cols
             = Some (Inr (path, field))"
    and "path \<noteq> []"
    and "in_bounds num_rows num_cols start_point"
  shows "hd path = destination_point \<and> last path = start_point
     \<and> successively adjacent path
     \<and> field (hd path) = Fin 0
     \<and> ((\<forall>c\<in>set path. field c \<noteq> NaN) \<longrightarrow>
          successively (\<lambda>a b. flt (field a) (field b)) path)"
proof -
  let ?R = num_rows and ?C = num_cols
  from assms(1) have df: "distance_field ?R ?C obstacles destination_point = Some (Inr field)"
    by (rule grassfire_field)
  from assms(1) df have rc: "reconstruct ?R ?C field start_point destination_point = Some (Inr path)"
    by (auto simp: grassfire_algorithm_def split: option.splits sum.splits)
  with assms(2) have w: "walk ?R ?C field destination_point start_point [] = Some (Inr path)"
    by (auto simp: reconstruct_def split: if_splits)
  from walk_path [OF w] assms(2) obtain more where
    m: "path = rev (start_point # more)" "last (start_point # more) = destination_point"
      "successively adjacent (start_point # more)" "\<forall>c\<in>set more. in_bounds ?R ?C c"
      "successively (\<lambda>a b. \<not> fge (field b) (aget ?R ?C field a)) (start_point # more)"
    by auto
  have inb: "\<forall>c\<in>set (start_point # more). in_bounds ?R ?C c" using m(4) assms(3) by simp
  have "hd (rev (start_point # more)) = last (start_point # more)" by (rule hd_rev)
  then have h: "hd path = destination_point" using m(1,2) by simp
  have l: "last path = start_point" using m(1) by simp
  have adj: "successively adjacent path"
    unfolding m(1) successively_rev
    using m(3) by (rule successively_mono) (simp add: adjacent_sym)
  have "in_bounds ?R ?C destination_point"
    using inb m(2) last_in_set [of "start_point # more"] by auto
  with df have z: "field (hd path) = Fin 0" unfolding h by (rule distance_field_dest)
  have dec: "successively (\<lambda>a b. flt (field a) (field b)) path"
    if nn: "\<forall>c\<in>set path. field c \<noteq> NaN"
    unfolding m(1) successively_rev
    using m(5)
  proof (rule successively_mono)
    fix a b assume ab: "a \<in> set (start_point # more)" "b \<in> set (start_point # more)"
      and ng: "\<not> fge (field b) (aget ?R ?C field a)"
    from ab(1) inb have "in_bounds ?R ?C a" by blast
    then have "aget ?R ?C field a = field a" by (rule aget_in_bounds)
    moreover from ab nn have "field a \<noteq> NaN" "field b \<noteq> NaN" unfolding m(1) by auto
    ultimately show "flt (field b) (field a)" using ng by (simp add: not_fge_flt)
  qed
  from h l adj z dec show ?thesis by blast
qed


text \<open>Reading a result back from what was observed of it.\<close>

lemma returned_pathD:
  "returned_path r = Some p \<Longrightarrow> \<exists>f. r = Some (Inr (p, f))"
  by (auto simp: returned_path_def split: option.splits sum.splits)

lemma value_atD: "value_at r c = Some v \<Longrightarrow> r = Some (Inr f) \<Longrightarrow> f c = v"
  by (simp add: value_at_def)

text \<open>
  The theorem on the grid of one row and two columns without obstacles, from \<open>(0, 0)\<close> to
  \<open>(0, 1)\<close>.
\<close>

theorem returned_path_order_witness:
  "\<exists>field. grassfire_algorithm [] (0, 0) (0, 1) 1 2 = Some (Inr ([(0, 1), (0, 0)], field))
     \<and> hd [(0, 1), (0, 0)] = ((0, 1) :: cell) \<and> last [(0, 1), (0, 0)] = ((0, 0) :: cell)
     \<and> successively adjacent [(0, 1), (0, 0)]
     \<and> field (0, 1) = Fin 0
     \<and> successively (\<lambda>a b. flt (field a) (field b)) [(0, 1), (0, 0)]"
proof -
  have "returned_path (grassfire_algorithm [] (0, 0) (0, 1) 1 2) = Some [(0, 1), (0, 0)]"
    by code_simp
  then obtain field where
    g: "grassfire_algorithm [] (0, 0) (0, 1) 1 2 = Some (Inr ([(0, 1), (0, 0)], field))"
    using returned_pathD by blast
  have v: "value_at (distance_field 1 2 [] (0, 1)) (0, 0) = Some (Fin 1)"
    "value_at (distance_field 1 2 [] (0, 1)) (0, 1) = Some (Fin 0)"
    by code_simp+
  have "field (0, 0) = Fin 1" "field (0, 1) = Fin 0"
    using v grassfire_field [OF g] by (simp_all add: value_at_def)
  then have nn: "\<forall>c\<in>set [(0, 1), (0, 0)]. field c \<noteq> NaN" by simp
  from returned_path_order [OF g] nn g show ?thesis
    by (auto simp: in_bounds_def)
qed

text \<open>
  C2 as it is stated fails on the same run: the returned path begins with the destination
  \<open>(0, 1)\<close>, not with the start \<open>(0, 0)\<close>.
\<close>

theorem returned_path_starts_at_destination:
  "returned_path (grassfire_algorithm [] (0, 0) (0, 1) 1 2) = Some [(0, 1), (0, 0)]
   \<and> hd [(0, 1), (0, 0)] \<noteq> ((0, 0) :: cell)"
  by code_simp

text \<open>
  C3 at a start inside an obstacle, on the grid of one row and two columns: the start
  \<open>(0, 0)\<close> holds NaN, \<open>np.isinf\<close> is false on NaN, so the guard of line 70 lets the walk
  begin; \<open>0 >= nan\<close> is false as well, so line 80 does not stop it, and a path of two
  cells is returned where the claim promises the empty path.
\<close>

theorem obstacle_start_gets_a_path:
  "value_at (distance_field 1 2 [(0, 0)] (0, 1)) (0, 0) = Some NaN
   \<and> returned_path (grassfire_algorithm [(0, 0)] (0, 0) (0, 1) 1 2) = Some [(0, 1), (0, 0)]"
  by code_simp

text \<open>The half of C3 that the guard of line 70 does handle: a start that holds \<open>inf\<close>.\<close>

lemma reconstruct_unreached:
  "valid_index R C start \<Longrightarrow> aget R C f start = PInf \<Longrightarrow> reconstruct R C f start dest = Some (Inr [])"
  by (simp add: reconstruct_def)

text \<open>
  C5 on a grid of three rows and two columns with the obstacle \<open>(1, 0)\<close>, from \<open>(0, 0)\<close>
  to \<open>(2, 0)\<close>: the start is at distance 4, so the claim promises a path of 5 cells that
  avoids the obstacle; the returned path has 3 cells and its middle cell is the obstacle.
\<close>

theorem path_through_obstacle:
  "returned_path (grassfire_algorithm [(1, 0)] (0, 0) (2, 0) 3 2) = Some [(2, 0), (1, 0), (0, 0)]
   \<and> value_at (distance_field 3 2 [(1, 0)] (2, 0)) (0, 0) = Some (Fin 4)
   \<and> value_at (distance_field 3 2 [(1, 0)] (2, 0)) (1, 0) = Some NaN"
  by code_simp

text \<open>The scenario of C5 without obstacles does give 11 cells.\<close>

lemma scenario_8_by_8:
  "map_option length (returned_path (grassfire_algorithm [] (0, 3) (7, 6) 8 8)) = Some 11"
  by code_simp

text \<open>
  C7 on the field of the same grid, at the cell \<open>(0, 0)\<close>: its neighbours inside the grid
  are \<open>(1, 0)\<close>, which is an obstacle and holds NaN, and \<open>(0, 1)\<close>, which holds 3.  The
  obstacle comes first in the list and no key is \<open><\<close> a key with NaN, so \<open>min\<close> keeps it:
  the chosen cell is not the neighbour with the least field value.
\<close>

theorem nan_neighbour_is_chosen:
  "next_at 3 2 (distance_field 3 2 [(1, 0)] (2, 0)) (0, 0) = Some (1, 0)
   \<and> value_at (distance_field 3 2 [(1, 0)] (2, 0)) (1, 0) = Some NaN
   \<and> value_at (distance_field 3 2 [(1, 0)] (2, 0)) (0, 1) = Some (Fin 3)"
  by code_simp

text \<open>
  On a grid of at least three rows and two columns where \<open>(1, 0)\<close>, \<open>(2, 0)\<close> and
  \<open>(1, 1)\<close> hold NaN, \<open>min\<close> sends \<open>(0, 0)\<close> to \<open>(1, 0)\<close> and \<open>(1, 0)\<close> back to \<open>(0, 0)\<close>,
  and the test of line 80 is false both times: a walk at one of the two cells returns
  nothing.
\<close>

lemma walk_cycle:
  assumes "walk R C f dest cur acc = Some y"
  shows "\<not> (3 \<le> R \<and> 2 \<le> C \<and> f (1, 0) = NaN \<and> f (2, 0) = NaN \<and> f (1, 1) = NaN
            \<and> dest \<noteq> (0, 0) \<and> dest \<noteq> (1, 0) \<and> (cur = (0, 0) \<or> cur = (1, 0)))"
  using assms
proof (induction R C f dest cur acc y rule: walk.raw_induct [rotated 1, consumes 1, case_names step])
  case (step walk R C f dest cur acc y)
  show ?case
  proof
    assume a: "3 \<le> R \<and> 2 \<le> C \<and> f (1, 0) = NaN \<and> f (2, 0) = NaN \<and> f (1, 1) = NaN
            \<and> dest \<noteq> (0, 0) \<and> dest \<noteq> (1, 0) \<and> (cur = (0, 0) \<or> cur = (1, 0))"
    then consider "cur = (0, 0)" | "cur = (1, 0)" by blast
    then show False
    proof cases
      case 1
      have c: "choose_next R C f (0, 0) = Some (1, 0)"
        using a by (simp add: choose_next_def candidates_def directions_def in_bounds_def key_lt_def)
      have "walk R C f dest (1, 0) (acc @ [cur]) = Some y"
      proof -
        have "cur \<noteq> dest" using a 1 by auto
        moreover have "choose_next R C f cur = Some (1, 0)" using c 1 by simp
        moreover have "\<not> fge (f (1, 0)) (aget R C f cur)" using a by simp
        ultimately show ?thesis using step(2) by simp
      qed
      from step(1) [OF this] a show False by simp
    next
      case 2
      have c: "choose_next R C f (1, 0) = Some (0, 0)"
        using a by (simp add: choose_next_def candidates_def directions_def in_bounds_def key_lt_def)
      have "walk R C f dest (0, 0) (acc @ [cur]) = Some y"
      proof -
        have "cur \<noteq> dest" using a 2 by auto
        moreover have "choose_next R C f cur = Some (0, 0)" using c 2 by simp
        moreover have "\<not> fge (f (0, 0)) (aget R C f cur)"
          using a 2 by (simp add: aget_def wrap_def)
        ultimately show ?thesis using step(2) by simp
      qed
      from step(1) [OF this] a show False by simp
    qed
  qed
qed

text \<open>
  C6 at the obstacles \<open>(1, 0)\<close>, \<open>(2, 0)\<close>, \<open>(1, 1)\<close> of a 3 by 3 grid, from \<open>(0, 0)\<close> to
  \<open>(2, 2)\<close>: the start is reachable, at distance 4 along the top row and the right
  column, and \<open>grassfire_algorithm\<close> does not return.
\<close>

theorem walk_loops_forever:
  "value_at (distance_field 3 3 [(1, 0), (2, 0), (1, 1)] (2, 2)) (0, 0) = Some (Fin 4)
   \<and> grassfire_algorithm [(1, 0), (2, 0), (1, 1)] (0, 0) (2, 2) 3 3 = None"
proof -
  let ?obs = "[(1, 0), (2, 0), (1, 1)] :: cell list"
  have v: "value_at (distance_field 3 3 ?obs (2, 2)) (0, 0) = Some (Fin 4)"
    "value_at (distance_field 3 3 ?obs (2, 2)) (1, 0) = Some NaN"
    "value_at (distance_field 3 3 ?obs (2, 2)) (2, 0) = Some NaN"
    "value_at (distance_field 3 3 ?obs (2, 2)) (1, 1) = Some NaN"
    by code_simp+
  then obtain f where f: "distance_field 3 3 ?obs (2, 2) = Some (Inr f)"
    by (auto simp: value_at_def split: option.splits sum.splits)
  have fv: "f (0, 0) = Fin 4" "f (1, 0) = NaN" "f (2, 0) = NaN" "f (1, 1) = NaN"
    using v f by (simp_all add: value_at_def)
  have "walk 3 3 f (2, 2) (0, 0) [] = None"
  proof (cases "walk 3 3 f (2, 2) (0, 0) []")
    case (Some y)
    from walk_cycle [OF this] fv show ?thesis by simp
  qed simp
  then have "reconstruct 3 3 f (0, 0) (2, 2) = None"
    using fv by (simp add: reconstruct_def valid_index_def aget_def wrap_def)
  then have "grassfire_algorithm ?obs (0, 0) (2, 2) 3 3 = None"
    using f by (simp add: grassfire_algorithm_def)
  with v(1) show ?thesis by simp
qed

text \<open>
  The same on grids that \<open>main\<close> can draw: 8 by 8, ten obstacles, the start in row 0 and
  the destination in the lower right.  With \<open>(1, 0)\<close>, \<open>(2, 0)\<close>, \<open>(1, 1)\<close> among the
  obstacles the run from \<open>(0, 0)\<close> does not return, although the start is at distance 14;
  with \<open>(1, 3)\<close> and \<open>(2, 3)\<close> among them the walk from \<open>(0, 3)\<close> first chooses the
  obstacle \<open>(1, 3)\<close> over its neighbour \<open>(0, 4)\<close> and the returned path runs through it.
\<close>

lemma hang_8_by_8:
  "value_at (distance_field 8 8
       [(1, 0), (2, 0), (1, 1), (3, 3), (3, 4), (4, 6), (5, 1), (6, 2), (6, 4), (2, 6)] (7, 7))
     (0, 0) = Some (Fin 14)
   \<and> grassfire_algorithm
       [(1, 0), (2, 0), (1, 1), (3, 3), (3, 4), (4, 6), (5, 1), (6, 2), (6, 4), (2, 6)]
       (0, 0) (7, 7) 8 8 = None"
proof -
  let ?obs = "[(1, 0), (2, 0), (1, 1), (3, 3), (3, 4), (4, 6), (5, 1), (6, 2), (6, 4), (2, 6)]
                :: cell list"
  have v: "value_at (distance_field 8 8 ?obs (7, 7)) (0, 0) = Some (Fin 14)"
    "value_at (distance_field 8 8 ?obs (7, 7)) (1, 0) = Some NaN"
    "value_at (distance_field 8 8 ?obs (7, 7)) (2, 0) = Some NaN"
    "value_at (distance_field 8 8 ?obs (7, 7)) (1, 1) = Some NaN"
    by code_simp+
  then obtain f where f: "distance_field 8 8 ?obs (7, 7) = Some (Inr f)"
    by (auto simp: value_at_def split: option.splits sum.splits)
  have fv: "f (0, 0) = Fin 14" "f (1, 0) = NaN" "f (2, 0) = NaN" "f (1, 1) = NaN"
    using v f by (simp_all add: value_at_def)
  have "walk 8 8 f (7, 7) (0, 0) [] = None"
  proof (cases "walk 8 8 f (7, 7) (0, 0) []")
    case (Some y)
    from walk_cycle [OF this] fv show ?thesis by simp
  qed simp
  then have "reconstruct 8 8 f (0, 0) (7, 7) = None"
    using fv by (simp add: reconstruct_def valid_index_def aget_def wrap_def)
  then have "grassfire_algorithm ?obs (0, 0) (7, 7) 8 8 = None"
    using f by (simp add: grassfire_algorithm_def)
  with v(1) show ?thesis by simp
qed

lemma path_through_obstacle_8_by_8:
  "returned_path (grassfire_algorithm
       [(1, 3), (2, 3), (3, 0), (4, 0), (5, 0), (6, 0), (7, 0), (3, 1), (4, 1), (5, 1)]
       (0, 3) (7, 6) 8 8)
     = Some [(7, 6), (7, 5), (7, 4), (6, 4), (5, 4), (4, 4), (3, 4), (2, 4), (1, 4), (1, 3), (0, 3)]
   \<and> next_at 8 8 (distance_field 8 8
       [(1, 3), (2, 3), (3, 0), (4, 0), (5, 0), (6, 0), (7, 0), (3, 1), (4, 1), (5, 1)] (7, 6))
     (0, 3) = Some (1, 3)
   \<and> value_at (distance_field 8 8
       [(1, 3), (2, 3), (3, 0), (4, 0), (5, 0), (6, 0), (7, 0), (3, 1), (4, 1), (5, 1)] (7, 6))
     (1, 3) = Some NaN
   \<and> value_at (distance_field 8 8
       [(1, 3), (2, 3), (3, 0), (4, 0), (5, 0), (6, 0), (7, 0), (3, 1), (4, 1), (5, 1)] (7, 6))
     (0, 4) = Some (Fin 9)"
  by code_simp

text \<open>
  A start inside an obstacle on a grid that \<open>main\<close> can draw: from the start \<open>(0, 3)\<close>,
  which holds NaN, \<open>min\<close> goes to the cell below, whose first candidate is the start
  again; the run does not return.
\<close>

lemma min_from_nan_first: "f best = NaN \<Longrightarrow> min_from f best ps = best"
  by (induction ps) (simp_all add: key_lt_def)

lemma walk_cycle_from_obstacle:
  assumes "walk R C f dest cur acc = Some y"
  shows "\<not> (2 \<le> R \<and> 5 \<le> C \<and> f (0, 3) = NaN \<and> f (1, 3) = Fin a \<and> f (0, 2) = Fin b
            \<and> f (0, 4) = Fin c \<and> a \<le> b \<and> a \<le> c
            \<and> dest \<noteq> (0, 3) \<and> dest \<noteq> (1, 3) \<and> (cur = (0, 3) \<or> cur = (1, 3)))"
  using assms
proof (induction R C f dest cur acc y rule: walk.raw_induct [rotated 1, consumes 1, case_names step])
  case (step walk R C f dest cur acc y)
  show ?case
  proof
    assume h: "2 \<le> R \<and> 5 \<le> C \<and> f (0, 3) = NaN \<and> f (1, 3) = Fin a \<and> f (0, 2) = Fin b
            \<and> f (0, 4) = Fin c \<and> a \<le> b \<and> a \<le> c
            \<and> dest \<noteq> (0, 3) \<and> dest \<noteq> (1, 3) \<and> (cur = (0, 3) \<or> cur = (1, 3))"
    then consider "cur = (0, 3)" | "cur = (1, 3)" by blast
    then show False
    proof cases
      case 1
      have c: "choose_next R C f (0, 3) = Some (1, 3)"
        using h by (simp add: choose_next_def candidates_def directions_def in_bounds_def key_lt_def)
      have "walk R C f dest (1, 3) (acc @ [cur]) = Some y"
      proof -
        have "cur \<noteq> dest" using h 1 by auto
        moreover have "choose_next R C f cur = Some (1, 3)" using c 1 by simp
        moreover have "\<not> fge (f (1, 3)) (aget R C f cur)"
          using h 1 by (simp add: aget_def wrap_def)
        ultimately show ?thesis using step(2) by simp
      qed
      from step(1) [OF this] h show False by simp
    next
      case 2
      have "candidates R C (1, 3) = (0, 3) # filter (in_bounds R C) [(2, 3), (1, 2), (1, 4)]"
        using h by (simp add: candidates_def directions_def in_bounds_def)
      then have c: "choose_next R C f (1, 3) = Some (0, 3)"
        using h by (simp add: choose_next_def min_from_nan_first)
      have "walk R C f dest (0, 3) (acc @ [cur]) = Some y"
      proof -
        have "cur \<noteq> dest" using h 2 by auto
        moreover have "choose_next R C f cur = Some (0, 3)" using c 2 by simp
        moreover have "\<not> fge (f (0, 3)) (aget R C f cur)" using h by simp
        ultimately show ?thesis using step(2) by simp
      qed
      from step(1) [OF this] h show False by simp
    qed
  qed
qed

lemma obstacle_start_hangs_8_by_8:
  "grassfire_algorithm
     [(0, 3), (3, 0), (4, 0), (5, 0), (6, 0), (7, 0), (3, 1), (4, 1), (5, 1), (6, 1)]
     (0, 3) (7, 6) 8 8 = None"
proof -
  let ?obs = "[(0, 3), (3, 0), (4, 0), (5, 0), (6, 0), (7, 0), (3, 1), (4, 1), (5, 1), (6, 1)]
                :: cell list"
  have v: "value_at (distance_field 8 8 ?obs (7, 6)) (0, 3) = Some NaN"
    "value_at (distance_field 8 8 ?obs (7, 6)) (1, 3) = Some (Fin 9)"
    "value_at (distance_field 8 8 ?obs (7, 6)) (0, 2) = Some (Fin 11)"
    "value_at (distance_field 8 8 ?obs (7, 6)) (0, 4) = Some (Fin 9)"
    by code_simp+
  then obtain f where f: "distance_field 8 8 ?obs (7, 6) = Some (Inr f)"
    by (auto simp: value_at_def split: option.splits sum.splits)
  have fv: "f (0, 3) = NaN" "f (1, 3) = Fin 9" "f (0, 2) = Fin 11" "f (0, 4) = Fin 9"
    using v f by (simp_all add: value_at_def)
  have "walk 8 8 f (7, 6) (0, 3) [] = None"
  proof (cases "walk 8 8 f (7, 6) (0, 3) []")
    case (Some y)
    from walk_cycle_from_obstacle [OF this, of 9 11 9] fv show ?thesis by simp
  qed simp
  then have "reconstruct 8 8 f (0, 3) (7, 6) = None"
    using fv by (simp add: reconstruct_def valid_index_def aget_def wrap_def)
  then show ?thesis
    using f by (simp add: grassfire_algorithm_def)
qed

text \<open>
  What line 75 to 79 do choose when no candidate holds NaN: the key order is then a
  linear order, and \<open>min\<close> returns the candidate with the least field value, among those
  the one with the highest row, among those the one with the highest column.
\<close>

lemma key_lt_trans:
  "f p \<noteq> NaN \<Longrightarrow> f q \<noteq> NaN \<Longrightarrow> f r \<noteq> NaN \<Longrightarrow> key_lt f p q \<Longrightarrow> key_lt f q r \<Longrightarrow> key_lt f p r"
  by (cases "f p"; cases "f q"; cases "f r") (auto simp: key_lt_def split: if_splits)

lemma key_lt_negtrans:
  "f p \<noteq> NaN \<Longrightarrow> f q \<noteq> NaN \<Longrightarrow> f r \<noteq> NaN \<Longrightarrow> key_lt f p r \<Longrightarrow> key_lt f p q \<or> key_lt f q r"
  by (cases "f p"; cases "f q"; cases "f r") (auto simp: key_lt_def split: if_splits)

lemma min_from_least:
  assumes "\<forall>p\<in>set (best # ps). f p \<noteq> NaN"
  shows "\<forall>p\<in>set (best # ps). \<not> key_lt f p (min_from f best ps)"
  using assms
proof (induction ps arbitrary: best)
  case Nil
  then show ?case by (cases "f best") (auto simp: key_lt_def)
next
  case (Cons q ps)
  let ?b = "if key_lt f q best then q else best"
  let ?m = "min_from f ?b ps"
  have nn: "\<forall>p\<in>set (?b # ps). f p \<noteq> NaN" using Cons.prems by auto
  from Cons.IH [OF nn] have ih: "\<forall>p\<in>set (?b # ps). \<not> key_lt f p ?m" .
  have m: "f ?m \<noteq> NaN" using min_from_mem [of f ?b ps] nn by blast
  have b: "f best \<noteq> NaN" "f q \<noteq> NaN" using Cons.prems by auto
  have "\<not> key_lt f best ?m \<and> \<not> key_lt f q ?m"
  proof (cases "key_lt f q best")
    case True
    then have 1: "\<not> key_lt f q ?m" using ih by simp
    with True key_lt_trans [OF b(2) b(1) m] key_lt_trans [of f q best ?m] have "\<not> key_lt f best ?m"
      using b m by blast
    with 1 show ?thesis by simp
  next
    case False
    then have 1: "\<not> key_lt f best ?m" using ih by simp
    with False key_lt_negtrans [OF b(2) b(1) m] have "\<not> key_lt f q ?m" by blast
    with 1 show ?thesis by simp
  qed
  with ih show ?case by auto
qed

lemma choose_next_without_nan:
  assumes "choose_next R C f cur = Some n" and "\<forall>p\<in>set (candidates R C cur). f p \<noteq> NaN"
  shows "n \<in> set (candidates R C cur)
     \<and> (\<forall>p\<in>set (candidates R C cur).
           flt (f n) (f p)
         \<or> f n = f p \<and> (fst p < fst n \<or> fst p = fst n \<and> snd p \<le> snd n))"
proof -
  obtain x xs where c: "candidates R C cur = x # xs" and n: "n = min_from f x xs"
    using assms(1) by (cases "candidates R C cur") (auto simp: choose_next_def)
  have mem: "n \<in> set (candidates R C cur)" using min_from_mem [of f x xs] c n by simp
  have least: "\<forall>p\<in>set (candidates R C cur). \<not> key_lt f p n"
    using min_from_least [of x xs f] assms(2) c n by simp
  have "flt (f n) (f p) \<or> f n = f p \<and> (fst p < fst n \<or> fst p = fst n \<and> snd p \<le> snd n)"
    if p: "p \<in> set (candidates R C cur)" for p
  proof -
    have "f p \<noteq> NaN" "f n \<noteq> NaN" "\<not> key_lt f p n" using p mem assms(2) least by auto
    then show ?thesis
      by (cases "f p"; cases "f n") (auto simp: key_lt_def split: if_splits)
  qed
  with mem show ?thesis by blast
qed

section \<open>The walk on a field without NaN\<close>

text \<open>
  Where no cell of the grid holds NaN, each step of the walk goes to a cell of strictly
  smaller value, so the number of cells below the current value shrinks and the walk
  returns: the test of line 80 does what its comment says.
\<close>

lemma flt_trans: "flt a b \<Longrightarrow> flt b c \<Longrightarrow> flt a c"
  by (cases a; cases b; cases c) auto

lemma flt_irrefl: "\<not> flt a a"
  by (cases a) auto

lemma wrap_valid: "valid_index R C p \<Longrightarrow> in_bounds R C (wrap R C p)"
  by (auto simp: valid_index_def in_bounds_def wrap_def)

lemma walk_terminates_without_nan:
  assumes "\<forall>c. in_bounds R C c \<longrightarrow> f c \<noteq> NaN" and "aget R C f cur \<noteq> NaN"
  shows "\<exists>y. walk R C f dest cur acc = Some y"
  using assms(2)
proof (induction "card {c. in_bounds R C c \<and> flt (f c) (aget R C f cur)}"
    arbitrary: cur acc rule: less_induct)
  case less
  show ?case
  proof (cases "cur = dest")
    case True
    then show ?thesis by (subst walk.simps) simp
  next
    case False
    show ?thesis
    proof (cases "choose_next R C f cur")
      case None
      with False show ?thesis by (subst walk.simps) simp
    next
      case (Some n)
      from choose_next_mem [OF Some] have inb: "in_bounds R C n" by simp
      with assms(1) have nn: "f n \<noteq> NaN" by blast
      show ?thesis
      proof (cases "fge (f n) (aget R C f cur)")
        case True
        with False Some show ?thesis by (subst walk.simps) simp
      next
        case ng: False
        with nn less.prems have lt: "flt (f n) (aget R C f cur)" by (rule_tac not_fge_flt)
        have ag: "aget R C f n = f n" using inb by (rule aget_in_bounds)
        let ?A = "{c. in_bounds R C c \<and> flt (f c) (aget R C f cur)}"
        let ?B = "{c. in_bounds R C c \<and> flt (f c) (aget R C f n)}"
        have "?B \<subseteq> ?A" using lt flt_trans by (auto simp: ag)
        moreover have "n \<in> ?A" "n \<notin> ?B" using inb lt by (auto simp: ag flt_irrefl)
        ultimately have "?B \<subset> ?A" by blast
        moreover have "finite ?A" using finite_in_bounds [of R C] by (rule rev_finite_subset) auto
        ultimately have "card ?B < card ?A" by (rule psubset_card_mono [rotated])
        from less.hyps [OF this, of "acc @ [cur]"] nn ag obtain y where
          "walk R C f dest n (acc @ [cur]) = Some y" by auto
        with False Some ng show ?thesis by (subst walk.simps) simp
      qed
    qed
  qed
qed

lemma reconstruct_terminates_without_nan:
  assumes "\<forall>c. in_bounds R C c \<longrightarrow> f c \<noteq> NaN"
  shows "\<exists>y. reconstruct R C f start dest = Some y"
proof (cases "valid_index R C start")
  case True
  then have "in_bounds R C (wrap R C start)" by (rule wrap_valid)
  with assms have "f (wrap R C start) \<noteq> NaN" by blast
  then have "aget R C f start \<noteq> NaN" by (simp add: aget_def)
  from walk_terminates_without_nan [OF assms this] show ?thesis
    by (simp add: reconstruct_def)
next
  case False
  then show ?thesis by (simp add: reconstruct_def)
qed


text \<open>
  A returned path none of whose cells holds NaN descends by exactly one at each step of
  the walk, because neighbouring finite values of the computed field differ by at most
  one: the path has \<open>field[start] + 1\<close> cells and none of them is an obstacle other than
  the destination.
\<close>

lemma descending_chain_length:
  assumes inv: "bfs_inv R C obs dest f []"
    and "successively adjacent (cur # more)"
    and "successively (\<lambda>a b. flt (f b) (f a)) (cur # more)"
    and "\<forall>c\<in>set (cur # more). in_bounds R C c \<and> f c \<noteq> NaN"
    and "last (cur # more) = dest"
  shows "f cur = Fin (int (length more))"
  using assms(2-)
proof (induction more arbitrary: cur)
  case Nil
  with inv show ?case by (simp add: bfs_inv_def)
next
  case (Cons n more)
  have ih: "f n = Fin (int (length more))"
    using Cons.prems by (intro Cons.IH) (auto simp: successively_Cons)
  have lt: "flt (f n) (f cur)" and adj: "adjacent cur n"
    using Cons.prems(1,2) by (auto simp: successively_Cons)
  have cur: "in_bounds R C cur" "f cur \<noteq> NaN" using Cons.prems(3) by auto
  from inv have z: "f dest = Fin 0" and ob: "\<forall>c\<in>set obs. c \<noteq> dest \<longrightarrow> f c = NaN"
    and dn: "\<forall>c d n. f c = Fin d \<longrightarrow> c \<notin> set [] \<longrightarrow> adjacent c n \<longrightarrow> in_bounds R C n
        \<longrightarrow> n \<notin> set obs \<longrightarrow> (\<exists>v. f n = Fin v \<and> v \<le> d + 1)"
    and nonneg: "\<forall>c d. f c = Fin d \<longrightarrow> 0 \<le> d"
    unfolding bfs_inv_def by blast+
  have "cur \<noteq> dest"
  proof
    assume "cur = dest"
    with z lt ih show False by simp
  qed
  with ob cur(2) have "cur \<notin> set obs" by blast
  with dn ih adj cur(1) have "\<exists>v. f cur = Fin v \<and> v \<le> int (length more) + 1"
    using adjacent_sym [OF adj] by (simp del: split_paired_All split_paired_Ex)
  then obtain v where v: "f cur = Fin v" "v \<le> int (length more) + 1" by blast
  with lt ih have "int (length more) < v" by simp
  with v show ?case by simp
qed

lemma path_length_without_nan:
  assumes "\<forall>ob\<in>set obs. in_bounds R C ob"
    and "grassfire_algorithm obs start dest R C = Some (Inr (path, field))"
    and "path \<noteq> []"
    and "in_bounds R C start"
    and "\<forall>c\<in>set path. field c \<noteq> NaN"
  shows "field start = Fin (int (length path) - 1) \<and> (\<forall>c\<in>set path. c = dest \<or> c \<notin> set obs)"
proof -
  from assms(2) have df: "distance_field R C obs dest = Some (Inr field)"
    by (rule grassfire_field)
  from assms(2) df have "reconstruct R C field start dest = Some (Inr path)"
    by (auto simp: grassfire_algorithm_def split: option.splits sum.splits)
  with assms(3) have w: "walk R C field dest start [] = Some (Inr path)"
    by (auto simp: reconstruct_def split: if_splits)
  from walk_path [OF w] assms(3) obtain more where
    m: "path = rev (start # more)" "last (start # more) = dest"
      "successively adjacent (start # more)" "\<forall>c\<in>set more. in_bounds R C c"
      "successively (\<lambda>a b. \<not> fge (field b) (aget R C field a)) (start # more)"
    by auto
  have inb: "\<forall>c\<in>set (start # more). in_bounds R C c \<and> field c \<noteq> NaN"
    using m(1,4) assms(4,5) by auto
  have "in_bounds R C dest" using inb m(2) last_in_set [of "start # more"] by auto
  with df assms(1) have inv: "bfs_inv R C obs dest field []"
    using distance_field_run [of obs R C dest] by auto
  have dec: "successively (\<lambda>a b. flt (field b) (field a)) (start # more)"
    using m(5)
  proof (rule successively_mono)
    fix a b assume ab: "a \<in> set (start # more)" "b \<in> set (start # more)"
      and ng: "\<not> fge (field b) (aget R C field a)"
    from ab(1) inb have "in_bounds R C a" by blast
    then have "aget R C field a = field a" by (rule aget_in_bounds)
    moreover from ab inb have "field a \<noteq> NaN" "field b \<noteq> NaN" by blast+
    ultimately show "flt (field b) (field a)" using ng by (simp add: not_fge_flt)
  qed
  from descending_chain_length [OF inv m(3) dec inb m(2)]
  have "field start = Fin (int (length path) - 1)" by (simp add: m(1))
  moreover from inv have "\<forall>c\<in>set obs. c \<noteq> dest \<longrightarrow> field c = NaN"
    unfolding bfs_inv_def by blast
  with assms(5) have "\<forall>c\<in>set path. c = dest \<or> c \<notin> set obs" by blast
  ultimately show ?thesis by blast
qed

end
